theory Spec2Isabelle
  imports Complex_Main "HOL-Library.Product_Lexorder"
begin

section \<open>Clinical formula library (model/egfr\_formulas.py)\<close>

text \<open>
  Floating-point values are modelled as real numbers.  A missing value (Python \<open>None\<close>,
  pandas \<open>NaN\<close>) is \<open>None\<close> of an option type.
\<close>

datatype sex = F | M

datatype race = B | NB

datatype formula = F09 | F21

datatype stage = G1 | G2 | G3a | G3b | G4 | G5

text \<open>
  \<open>np.select(conditions, choices, default=None)\<close> on one element: the choice of the first
  condition that holds, the default when none does.
\<close>

fun np_select :: "(bool \<times> 'a) list \<Rightarrow> 'a option" where
  "np_select [] = None"
| "np_select ((c, v) # cvs) = (if c then Some v else np_select cvs)"

definition stage_conditions :: "real \<Rightarrow> (bool \<times> stage) list" where
  "stage_conditions egfr =
     [(egfr > 90, G1),
      (egfr > 60 \<and> egfr \<le> 90, G2),
      (egfr > 45 \<and> egfr \<le> 60, G3a),
      (egfr > 30 \<and> egfr \<le> 45, G3b),
      (egfr > 15 \<and> egfr \<le> 30, G4),
      (egfr > 0 \<and> egfr \<le> 15, G5)]"

definition egfr_to_stages :: "real \<Rightarrow> stage option" where
  "egfr_to_stages egfr = np_select (stage_conditions egfr)"

definition range_conditions :: "real \<Rightarrow> (bool \<times> nat) list" where
  "range_conditions egfr =
     [(egfr > 105, 1),
      (egfr > 90 \<and> egfr \<le> 105, 2),
      (egfr > 75 \<and> egfr \<le> 90, 3),
      (egfr > 60 \<and> egfr \<le> 75, 4),
      (egfr > 45 \<and> egfr \<le> 60, 5),
      (egfr > 30 \<and> egfr \<le> 45, 6),
      (egfr > 15 \<and> egfr \<le> 30, 7),
      (egfr > 0 \<and> egfr \<le> 15, 8),
      (egfr \<le> 0, 8)]"

definition egfr_to_ranges :: "real \<Rightarrow> nat option" where
  "egfr_to_ranges egfr = np_select (range_conditions egfr)"

text \<open>The number of conditions of a \<open>np.select\<close> table that hold at once.\<close>

definition holding :: "(bool \<times> 'a) list \<Rightarrow> nat" where
  "holding cvs = length (filter fst cvs)"

subsection \<open>The CKD-EPI equations and their inverse\<close>

text \<open>The table \<open>CKD_EPI_params\<close>.\<close>

fun kappa :: "formula \<Rightarrow> sex \<Rightarrow> real" where
  "kappa F21 F = 0.7"
| "kappa F21 M = 0.9"
| "kappa F09 F = 0.7"
| "kappa F09 M = 0.9"

fun alpha :: "formula \<Rightarrow> sex \<Rightarrow> real" where
  "alpha F21 F = - 0.241"
| "alpha F21 M = - 0.302"
| "alpha F09 F = - 0.329"
| "alpha F09 M = - 0.411"

fun sex_adj :: "formula \<Rightarrow> sex \<Rightarrow> real" where
  "sex_adj F21 F = 1.012"
| "sex_adj F21 M = 1"
| "sex_adj F09 F = 1.018"
| "sex_adj F09 M = 1"

fun race_adj :: "formula \<Rightarrow> race \<Rightarrow> real" where
  "race_adj F21 B = 1"
| "race_adj F21 NB = 1"
| "race_adj F09 B = 1.159"
| "race_adj F09 NB = 1"

fun max_exp :: "formula \<Rightarrow> real" where
  "max_exp F21 = - 1.2"
| "max_exp F09 = - 1.209"

fun age_base :: "formula \<Rightarrow> real" where
  "age_base F21 = 0.9938"
| "age_base F09 = 0.993"

fun beta :: "formula \<Rightarrow> real" where
  "beta F21 = 142"
| "beta F09 = 141"

text \<open>
  Python's \<open>pow(x, y)\<close> on floats with a positive base is the real power \<open>x powr y\<close>.
  The functions below are only applied to positive bases in what follows.
\<close>

definition CKD_EPI :: "real \<Rightarrow> sex \<Rightarrow> real \<Rightarrow> race \<Rightarrow> formula \<Rightarrow> real" where
  "CKD_EPI scr sx ag rc fm =
     beta fm
     * (min (scr / kappa fm sx) 1) powr (alpha fm sx)
     * (max (scr / kappa fm sx) 1) powr (max_exp fm)
     * (age_base fm) powr ag
     * sex_adj fm sx
     * race_adj fm rc"

definition creat_from_eGFR :: "real \<Rightarrow> sex \<Rightarrow> real \<Rightarrow> race \<Rightarrow> formula \<Rightarrow> real" where
  "creat_from_eGFR eg sx ag rc fm =
     (let a = eg / (beta fm * (age_base fm) powr ag * sex_adj fm sx * race_adj fm rc)
      in if a = 0 then 0
         else if a \<ge> 1 then a powr (1 / alpha fm sx) * kappa fm sx
         else a powr (1 / max_exp fm) * kappa fm sx)"

definition eGFR_2021_to_2009 :: "real \<Rightarrow> sex \<Rightarrow> real \<Rightarrow> race \<Rightarrow> real option" where
  "eGFR_2021_to_2009 egfr_2021 sx ag rc =
     (if egfr_2021 = 0 then Some 0
      else if egfr_2021 < 0 then None
      else let SeCr = creat_from_eGFR egfr_2021 sx ag rc F21
           in if SeCr = 0 then Some 0 else Some (CKD_EPI SeCr sx ag rc F09))"

definition eGFR_2009_to_2021 :: "real \<Rightarrow> sex \<Rightarrow> real \<Rightarrow> race \<Rightarrow> real option" where
  "eGFR_2009_to_2021 egfr_2009 sx ag rc =
     (if egfr_2009 = 0 then Some 0
      else if egfr_2009 < 0 then None
      else let SeCr = creat_from_eGFR egfr_2009 sx ag rc F09
           in if SeCr = 0 then Some 0 else Some (CKD_EPI SeCr sx ag rc F21))"

section \<open>Trajectory tables\<close>

text \<open>
  A pandas frame is the list of its rows, in frame order.  A cell that can be missing
  (\<open>NaN\<close>) has an option type.  The mixed-type column \<open>stage_diag\<close> holds a stage
  label or the placeholder \<open>0\<close>.
\<close>

datatype py_error = AssertionError | ZeroDivisionError | ValueError | KeyError

datatype stage_diag_val = Zero | Label stage

record row =
  pid :: nat
  age :: real
  egfr :: "real option"
  slope :: "real option"
  ht :: "int option"
  dm :: "int option"
  death :: "int option"
  g3 :: "int option"
  diag :: "int option"
  nephr :: "int option"
  sex :: "sex option"
  race :: "race option"
  stage_diag :: "stage_diag_val option"

type_synonym frame = "row list"

text \<open>
  The ambient random generator is a stream of uniform draws from \<open>[0, 1)\<close>;
  \<open>uniforms n\<close> takes the next \<open>n\<close> draws and returns the advanced stream.
  \<open>np.random.binomial(1, p)\<close> rejects \<open>p\<close> outside \<open>[0, 1]\<close> with a
  \<open>ValueError\<close> and otherwise uses one draw.
\<close>

type_synonym rng = "nat \<Rightarrow> real"

definition uniforms :: "nat \<Rightarrow> rng \<Rightarrow> real list \<times> rng" where
  "uniforms n g = (map g [0..<n], \<lambda>i. g (n + i))"

definition bernoulli :: "real \<Rightarrow> real \<Rightarrow> int" where
  "bernoulli p u = (if u < p then 1 else 0)"

definition binomial1 :: "real \<Rightarrow> nat \<Rightarrow> rng \<Rightarrow> py_error + (int list \<times> rng)" where
  "binomial1 p n g =
     (if n = 0 then Inr ([], g)
      else if p < 0 \<or> p > 1 then Inl ValueError
      else (case uniforms n g of (us, g') \<Rightarrow> Inr (map (bernoulli p) us, g')))"

section \<open>Intervention sampler (model/interventions.py)\<close>

datatype event = Diag | Nephr

record interv =
  freq :: "stage \<rightharpoonup> real"
  eff :: real

type_synonym interv_params = "event \<Rightarrow> interv"

fun indicator :: "event \<Rightarrow> row \<Rightarrow> int option" where
  "indicator Diag r = diag r"
| "indicator Nephr r = nephr r"

fun set_indicator :: "event \<Rightarrow> int option \<Rightarrow> row \<Rightarrow> row" where
  "set_indicator Diag v r = r\<lparr>diag := v\<rparr>"
| "set_indicator Nephr v r = r\<lparr>nephr := v\<rparr>"

definition frac_already_intervened :: "frame \<Rightarrow> event \<Rightarrow> py_error + real" where
  "frac_already_intervened df ev =
     (if df = [] then Inl ZeroDivisionError
      else Inr (real (length (filter (\<lambda>r. indicator ev r = Some 1) df)) / real (length df)))"

definition intervention_prob :: "stage_diag_val option \<Rightarrow> interv_params \<Rightarrow> event \<Rightarrow> py_error + real" where
  "intervention_prob sd ip ev =
     (case sd of
        Some (Label s) \<Rightarrow> (case freq (ip ev) s of None \<Rightarrow> Inl KeyError | Some p \<Rightarrow> Inr p)
      | _ \<Rightarrow> Inl KeyError)"

definition conditional_prob :: "real \<Rightarrow> real \<Rightarrow> py_error + real" where
  "conditional_prob interv_prob frac_intervened =
     (if 1 - frac_intervened = 0 then Inl ZeroDivisionError
      else Inr ((interv_prob - frac_intervened) / (1 - frac_intervened)))"

text \<open>Exceptions propagate: the first error ends the computation.\<close>

definition on_ok :: "'e + 'a \<Rightarrow> ('a \<Rightarrow> 'e + 'b) \<Rightarrow> 'e + 'b" where
  "on_ok m f = (case m of Inl e \<Rightarrow> Inl e | Inr v \<Rightarrow> f v)"

definition mul_opt :: "int option \<Rightarrow> int option \<Rightarrow> int option" where
  "mul_opt a b = (case (a, b) of (Some x, Some y) \<Rightarrow> Some (x * y) | _ \<Rightarrow> None)"

text \<open>
  The probability of a new intervention; for \<open>nephr\<close> it is divided by the fraction
  already diagnosed.
\<close>

definition sampling_prob :: "frame \<Rightarrow> event \<Rightarrow> interv_params \<Rightarrow> py_error + real" where
  "sampling_prob df ev ip =
     (if length (remdups (map stage_diag df)) \<noteq> 1 then Inl AssertionError
      else
        on_ok (frac_already_intervened df ev) (\<lambda>frac_intervened.
        on_ok (intervention_prob (stage_diag (hd df)) ip ev) (\<lambda>interv_prob.
        on_ok (conditional_prob interv_prob frac_intervened) (\<lambda>prob.
          if ev = Nephr then
            on_ok (frac_already_intervened df Diag) (\<lambda>fd.
              if fd = 0 then Inl ZeroDivisionError else Inr (prob / fd))
          else Inr prob))))"

definition assign_samples :: "frame \<Rightarrow> event \<Rightarrow> int list \<Rightarrow> frame" where
  "assign_samples df ev samples =
     map (\<lambda>(r, v). let r' = set_indicator ev (Some v) r
                    in if ev = Nephr then r'\<lparr>nephr := mul_opt (nephr r') (diag r')\<rparr> else r')
         (zip df samples)"

definition sample_interventions ::
  "frame \<Rightarrow> event \<Rightarrow> interv_params \<Rightarrow> real list option \<Rightarrow> rng \<Rightarrow> py_error + (frame \<times> rng)" where
  "sample_interventions df ev ip common_rn g =
     on_ok (sampling_prob df ev ip) (\<lambda>prob.
       case common_rn of
         Some crn \<Rightarrow>
           if length crn \<noteq> length df then Inl ValueError
           else Inr (assign_samples df ev (map (\<lambda>u. if u \<le> prob then 1 else 0) crn), g)
       | None \<Rightarrow>
           on_ok (binomial1 prob (length df) g) (\<lambda>(samples, g').
             Inr (assign_samples df ev samples, g')))"

text \<open>A row with only its key: every other cell is missing.\<close>

definition blank_row :: "nat \<Rightarrow> real \<Rightarrow> row" where
  "blank_row p a =
     \<lparr>pid = p, age = a, egfr = None, slope = None, ht = None, dm = None, death = None,
      g3 = None, diag = None, nephr = None, sex = None, race = None, stage_diag = None\<rparr>"

text \<open>
  Five individuals at the cutoff 60 (stage G3a), three of them already diagnosed, and a
  target probability of diagnosis of 0.5 at that stage.
\<close>

definition at_cutoff_example :: frame where
  "at_cutoff_example =
     map (\<lambda>(p, d). (blank_row p 70)\<lparr>egfr := Some 60, diag := Some d, nephr := Some 0,
                                      stage_diag := Some (Label G3a)\<rparr>)
       [(0, 1), (1, 1), (2, 1), (3, 0), (4, 0)]"

definition interv_params_example :: interv_params where
  "interv_params_example ev = \<lparr>freq = [G3a \<mapsto> 0.5], eff = 0.1\<rparr>"

text \<open>A generator whose every draw is one half.\<close>

definition constant_rng :: rng where
  "constant_rng i = 1 / 2"

section \<open>Survival functions and death sampling (model/helpers/survival\_helpers.py)\<close>

text \<open>
  A hazard table has one row per individual and one column per age; column \<open>j\<close> of a
  row is age \<open>j\<close>, the ages starting at 0 as the life tables do, and the table has no
  missing value.  A table whose columns no longer start at 0 carries its column labels:
  each cell is paired with the age of its column.
\<close>

fun cumsum_from :: "real \<Rightarrow> real list \<Rightarrow> real list" where
  "cumsum_from a [] = []"
| "cumsum_from a (x # xs) = (a + x) # cumsum_from (a + x) xs"

definition cumsum :: "real list \<Rightarrow> real list" where
  "cumsum xs = cumsum_from 0 xs"

text \<open>\<open>surv.loc[:, 0] = 1\<close>: the column of age 0 is overwritten, or created when absent.\<close>

definition survival_from_hazards :: "real list \<Rightarrow> real list" where
  "survival_from_hazards hazards =
     (let surv = map (\<lambda>x. exp (- x)) (cumsum hazards)
      in if surv = [] then [1] else surv[0 := 1])"

text \<open>Assigning to a column by label overwrites it, or appends it when absent.\<close>

definition set_column :: "nat \<Rightarrow> real \<Rightarrow> (nat \<times> real) list \<Rightarrow> (nat \<times> real) list" where
  "set_column l v cols =
     (if l \<in> fst ` set cols then map (\<lambda>(k, x). if k = l then (k, v) else (k, x)) cols
      else cols @ [(l, v)])"

text \<open>
  The second assertion of the source, \<open>age_surv > 0 & age_surv < 100\<close>, parses as
  \<open>age_surv > (0 & age_surv) < 100\<close> and so only requires \<open>age_surv > 0\<close>.
  Reading the column \<open>age_surv - 1\<close> of a table without it is a \<open>KeyError\<close>.
\<close>

definition conditional_on_survival :: "nat \<Rightarrow> real list \<Rightarrow> py_error + (nat \<times> real) list" where
  "conditional_on_survival age_surv surv =
     (if \<not> age_surv > 0 then Inl AssertionError
      else if \<not> age_surv - 1 < length surv then Inl KeyError
      else let surv_till_age = surv ! (age_surv - 1);
               surv_t = map (\<lambda>j. (j, surv ! j / surv_till_age)) [age_surv..<length surv]
           in Inr (set_column 100 0 surv_t))"

text \<open>Numpy broadcasting of two one-dimensional arrays.\<close>

definition broadcast :: "'a list \<Rightarrow> 'b list \<Rightarrow> py_error + ('a \<times> 'b) list" where
  "broadcast xs ys =
     (if length xs = length ys then Inr (zip xs ys)
      else if length ys = 1 then Inr (map (\<lambda>x. (x, hd ys)) xs)
      else if length xs = 1 then Inr (map (\<lambda>y. (hd xs, y)) ys)
      else Inl ValueError)"

fun all_ok :: "('e + 'a) list \<Rightarrow> 'e + 'a list" where
  "all_ok [] = Inr []"
| "all_ok (m # ms) =
     (case m of Inl e \<Rightarrow> Inl e
      | Inr v \<Rightarrow> (case all_ok ms of Inl e \<Rightarrow> Inl e | Inr vs \<Rightarrow> Inr (v # vs)))"

text \<open>
  \<open>argmax\<close> of a row of booleans: the index of the first \<open>True\<close>, 0 when there is none,
  and a \<open>ValueError\<close> on an empty row.
\<close>

fun first_true :: "bool list \<Rightarrow> nat" where
  "first_true [] = 0"
| "first_true (b # bs) = (if b then 0 else Suc (first_true bs))"

definition argmax :: "bool list \<Rightarrow> py_error + nat" where
  "argmax bs =
     (if bs = [] then Inl ValueError
      else if True \<in> set bs then Inr (first_true bs) else Inr 0)"

definition sample_row :: "(nat \<times> real) list \<times> real \<Rightarrow> py_error + nat" where
  "sample_row = (\<lambda>(cdf, u).
     on_ok (argmax (map (\<lambda>(l, c). c \<ge> u) cdf)) (\<lambda>surv_age. Inr (fst (cdf ! surv_age))))"

text \<open>\<open>sample_cat_vectorized\<close> with \<open>distr = "cdf"\<close>, the only way it is called.\<close>

definition sample_cat_vectorized ::
  "(nat \<times> real) list list \<Rightarrow> real list option \<Rightarrow> rng \<Rightarrow> py_error + (nat list \<times> rng)" where
  "sample_cat_vectorized df surv_sample g =
     (case (case surv_sample of None \<Rightarrow> uniforms (length df) g | Some s \<Rightarrow> (s, g)) of
        (sample, g') \<Rightarrow>
          on_ok (broadcast df sample) (\<lambda>pairs.
          on_ok (all_ok (map sample_row pairs)) (\<lambda>death_ages. Inr (death_ages, g'))))"

definition get_death_ages ::
  "real list list \<Rightarrow> nat \<Rightarrow> real list option \<Rightarrow> real list option \<Rightarrow> rng
     \<Rightarrow> py_error + (real list \<times> rng)" where
  "get_death_ages final_hazards init_age sample_year sample_cont g =
     (case (case sample_cont of None \<Rightarrow> uniforms (length final_hazards) g | Some c \<Rightarrow> (c, g)) of
        (cont, g1) \<Rightarrow>
          on_ok (all_ok (map (conditional_on_survival init_age \<circ> survival_from_hazards)
                             final_hazards)) (\<lambda>surv_updated.
          let cdf_updated = map (map (\<lambda>(l, s). (l, 1 - s))) surv_updated
          in on_ok (sample_cat_vectorized cdf_updated sample_year g1) (\<lambda>(death_ages, g2).
             on_ok (broadcast death_ages cont) (\<lambda>pairs.
               Inr (map (\<lambda>(a, c). real a + c) pairs, g2)))))"


subsection \<open>Predicates of the death-sampling properties\<close>

text \<open>A row of labelled columns is anchored when it has the column of age 100, with
  value \<open>v\<close>, and every column up to it has an age between \<open>a\<close> and 100.\<close>

definition anchored :: "nat \<Rightarrow> real \<Rightarrow> (nat \<times> real) list \<Rightarrow> bool" where
  "anchored a v cols \<longleftrightarrow>
     (\<exists>k < length cols. cols ! k = (100, v)
        \<and> (\<forall>j \<le> k. a \<le> fst (cols ! j) \<and> fst (cols ! j) \<le> 100))"

text \<open>
  The label \<open>l\<close> is the crossing of the draw \<open>u\<close> in a row of a CDF table: the age of
  the first column whose value reaches \<open>u\<close>.
\<close>

definition crossing :: "(nat \<times> real) list \<Rightarrow> real \<Rightarrow> nat \<Rightarrow> bool" where
  "crossing cdf u l \<longleftrightarrow>
     (\<exists>j < length cdf. fst (cdf ! j) = l \<and> u \<le> snd (cdf ! j)
        \<and> (\<forall>i < j. snd (cdf ! i) < u))"

text \<open>
  The supplied draws are usable: one value per individual, a year draw in \<open>[0, 1]\<close>
  and a within-year offset in \<open>[0, 1)\<close>.
\<close>

definition year_draws_ok :: "nat \<Rightarrow> real list option \<Rightarrow> bool" where
  "year_draws_ok n s = (case s of None \<Rightarrow> True
                        | Some us \<Rightarrow> length us = n \<and> (\<forall>u\<in>set us. 0 \<le> u \<and> u \<le> 1))"

definition cont_draws_ok :: "nat \<Rightarrow> real list option \<Rightarrow> bool" where
  "cont_draws_ok n s = (case s of None \<Rightarrow> True
                        | Some us \<Rightarrow> length us = n \<and> (\<forall>u\<in>set us. 0 \<le> u \<and> u < 1))"

text \<open>The draws a sampler uses: the supplied array, or fresh draws from the generator.\<close>

definition draws_used :: "nat \<Rightarrow> real list option \<Rightarrow> rng \<Rightarrow> real list \<times> rng" where
  "draws_used n s g = (case s of None \<Rightarrow> uniforms n g | Some c \<Rightarrow> (c, g))"

section \<open>Decline integrator (model/egfr\_model.py)\<close>

text \<open>
  \<open>round(2)\<close> of numpy and pandas: the value times 100 is rounded to the nearest
  integer, a tie going to the even one, and divided by 100.
\<close>

definition rint :: "real \<Rightarrow> int" where
  "rint x =
     (let f = \<lfloor>x\<rfloor>; d = x - of_int f
      in if d < 1 / 2 then f else if d > 1 / 2 then f + 1 else if even f then f else f + 1)"

definition round2 :: "real \<Rightarrow> real" where
  "round2 x = of_int (rint (x * 100)) / 100"

text \<open>Arithmetic on cells: a missing operand gives a missing result.\<close>

definition opt2 :: "('a \<Rightarrow> 'b \<Rightarrow> 'c) \<Rightarrow> 'a option \<Rightarrow> 'b option \<Rightarrow> 'c option" where
  "opt2 f a b = (case (a, b) of (Some x, Some y) \<Rightarrow> Some (f x y) | _ \<Rightarrow> None)"

text \<open>\<open>ffill\<close>: a missing cell takes the last value above it, if any.\<close>

fun ffill_from :: "'a option \<Rightarrow> 'a option list \<Rightarrow> 'a option list" where
  "ffill_from c [] = []"
| "ffill_from c (None # xs) = c # ffill_from c xs"
| "ffill_from c (Some v # xs) = Some v # ffill_from (Some v) xs"

definition ffill :: "'a option list \<Rightarrow> 'a option list" where
  "ffill xs = ffill_from None xs"

text \<open>\<open>shift(-1)\<close> and \<open>shift(1)\<close> of a whole column, across the groups.\<close>

definition shift_up :: "'a option list \<Rightarrow> 'a option list" where
  "shift_up xs = (if xs = [] then [] else tl xs @ [None])"

definition shift_down :: "'a option list \<Rightarrow> 'a option list" where
  "shift_down xs = (if xs = [] then [] else None # butlast xs)"

text \<open>\<open>drop_duplicates\<close> keeps the first occurrence of each value.\<close>

definition drop_duplicates :: "'a list \<Rightarrow> 'a list" where
  "drop_duplicates xs = rev (remdups (rev xs))"

text \<open>\<open>groupby("pid").first()\<close>: the first value of the group that is not missing.\<close>

definition first_valid :: "'a option list \<Rightarrow> 'a option" where
  "first_valid xs = (case filter (\<lambda>x. x \<noteq> None) xs of [] \<Rightarrow> None | x # _ \<Rightarrow> x)"

text \<open>
  \<open>get_init_egfr\<close>: the first eGFR of each individual, forward-filled along the sorted
  individuals, then aligned with the rows by \<open>pid\<close>.
\<close>

definition init_egfr_table :: "frame \<Rightarrow> (nat \<times> real option) list" where
  "init_egfr_table df =
     (let pids = sort (remdups (map pid df))
      in zip pids (ffill (map (\<lambda>p. first_valid (map egfr (filter (\<lambda>r. pid r = p) df))) pids)))"

definition get_init_egfr :: "frame \<Rightarrow> real option list" where
  "get_init_egfr df =
     map (\<lambda>r. case map_of (init_egfr_table df) (pid r) of None \<Rightarrow> None | Some v \<Rightarrow> v) df"

text \<open>
  \<open>groupby("pid")["age"].diff()\<close>: the age minus the age of the previous row of the
  same individual, missing on the individual's first row.  The argument is the age last
  seen for each individual.
\<close>

fun group_diff :: "(nat \<Rightarrow> real option) \<Rightarrow> frame \<Rightarrow> real option list" where
  "group_diff seen [] = []"
| "group_diff seen (r # rs) =
     (case seen (pid r) of None \<Rightarrow> None | Some a \<Rightarrow> Some (age r - a))
       # group_diff (seen(pid r := Some (age r))) rs"

text \<open>
  \<open>groupby("pid")["degfr"].cumsum()\<close>: a missing cell stays missing and is skipped by
  the running sum of its individual.  The argument is the running sum of each individual.
\<close>

fun group_cumsum :: "(nat \<Rightarrow> real) \<Rightarrow> (nat \<times> real option) list \<Rightarrow> real option list" where
  "group_cumsum acc [] = []"
| "group_cumsum acc ((p, None) # xs) = None # group_cumsum acc xs"
| "group_cumsum acc ((p, Some v) # xs) = Some (acc p + v) # group_cumsum (acc(p := acc p + v)) xs"

definition fillna :: "'a \<Rightarrow> 'a option \<Rightarrow> 'a" where
  "fillna d x = (case x of None \<Rightarrow> d | Some v \<Rightarrow> v)"

definition degfr_column :: "frame \<Rightarrow> real option list" where
  "degfr_column df =
     map (\<lambda>(dt, r). map_option round2 (opt2 (*) dt (slope r)))
       (zip (shift_up (group_diff (\<lambda>p. None) df)) df)"

definition degfr_cum_column :: "frame \<Rightarrow> real list" where
  "degfr_cum_column df =
     map (fillna 0) (shift_down (group_cumsum (\<lambda>p. 0) (zip (map pid df) (degfr_column df))))"

definition get_decline :: "frame \<Rightarrow> frame" where
  "get_decline df =
     map (\<lambda>(r, init_egfr, degfr_cum). r\<lparr>egfr := map_option (\<lambda>e. e - degfr_cum) init_egfr\<rparr>)
       (zip df (zip (get_init_egfr df) (degfr_cum_column df)))"

subsection \<open>The decline in terms of the segments\<close>

text \<open>
  The running sums of the individuals after the cells of a \<open>degfr\<close> column, the state
  of \<open>group_cumsum\<close> after them.
\<close>

fun acc_after :: "(nat \<Rightarrow> real) \<Rightarrow> (nat \<times> real option) list \<Rightarrow> (nat \<Rightarrow> real)" where
  "acc_after acc [] = acc"
| "acc_after acc ((p, None) # xs) = acc_after acc xs"
| "acc_after acc ((p, Some v) # xs) = acc_after (acc(p := acc p + v)) xs"

text \<open>
  The rounded decline over the segment that starts at row \<open>k\<close>, and the sum of the
  segment declines of the rows of the same individual before row \<open>i\<close>.
\<close>

definition segment_decline :: "frame \<Rightarrow> nat \<Rightarrow> real" where
  "segment_decline df k =
     (case slope (df ! k) of None \<Rightarrow> 0
      | Some s \<Rightarrow> round2 ((age (df ! Suc k) - age (df ! k)) * s))"

definition cumulative_decline :: "frame \<Rightarrow> nat \<Rightarrow> real" where
  "cumulative_decline df i =
     sum_list (map (\<lambda>k. if pid (df ! k) = pid (df ! i) then segment_decline df k else 0) [0..<i])"

text \<open>
  Two individuals observed at three and at two ages, the eGFR known at the first row of
  each and no slope on the last row of each.
\<close>

definition decline_example :: frame where
  "decline_example =
     [(blank_row 1 50)\<lparr>egfr := Some 80, slope := Some 1.5\<rparr>,
      (blank_row 1 57)\<lparr>slope := Some 3.333\<rparr>,
      (blank_row 1 61.05),
      (blank_row 2 50)\<lparr>egfr := Some 70, slope := Some 1.333\<rparr>,
      (blank_row 2 75.5)]"
section \<open>Properties of the clinical formula library\<close>

lemma stage_holding_one: "0 < x \<Longrightarrow> holding (stage_conditions x) = 1"
  by (simp add: holding_def stage_conditions_def)

lemma range_holding_one: "holding (range_conditions x) = 1"
  by (simp add: holding_def range_conditions_def)

lemma stages_intervals:
  "0 < x \<Longrightarrow>
      (egfr_to_stages x = Some G1 \<longleftrightarrow> 90 < x)
      \<and> (egfr_to_stages x = Some G2 \<longleftrightarrow> 60 < x \<and> x \<le> 90)
      \<and> (egfr_to_stages x = Some G3a \<longleftrightarrow> 45 < x \<and> x \<le> 60)
      \<and> (egfr_to_stages x = Some G3b \<longleftrightarrow> 30 < x \<and> x \<le> 45)
      \<and> (egfr_to_stages x = Some G4 \<longleftrightarrow> 15 < x \<and> x \<le> 30)
      \<and> (egfr_to_stages x = Some G5 \<longleftrightarrow> x \<le> 15)"
  by (simp add: egfr_to_stages_def stage_conditions_def)

lemma ranges_intervals:
  "0 < x \<Longrightarrow>
      (egfr_to_ranges x = Some 1 \<longleftrightarrow> 105 < x)
      \<and> (egfr_to_ranges x = Some 2 \<longleftrightarrow> 90 < x \<and> x \<le> 105)
      \<and> (egfr_to_ranges x = Some 3 \<longleftrightarrow> 75 < x \<and> x \<le> 90)
      \<and> (egfr_to_ranges x = Some 4 \<longleftrightarrow> 60 < x \<and> x \<le> 75)
      \<and> (egfr_to_ranges x = Some 5 \<longleftrightarrow> 45 < x \<and> x \<le> 60)
      \<and> (egfr_to_ranges x = Some 6 \<longleftrightarrow> 30 < x \<and> x \<le> 45)
      \<and> (egfr_to_ranges x = Some 7 \<longleftrightarrow> 15 < x \<and> x \<le> 30)
      \<and> (egfr_to_ranges x = Some 8 \<longleftrightarrow> x \<le> 15)"
  by (simp add: egfr_to_ranges_def range_conditions_def)

lemma nonpositive_classes:
  "x \<le> 0 \<Longrightarrow> egfr_to_stages x = None \<and> egfr_to_ranges x = Some 8"
  by (simp add: egfr_to_stages_def egfr_to_ranges_def stage_conditions_def range_conditions_def)

text \<open>
  Claim C5 (amended).  For every eGFR above 0 exactly one condition of the stage table and
  exactly one condition of the range table holds; \<open>egfr_to_stages\<close> returns the stage
  of the half-open interval the value lies in (above 90, (60,90], (45,60], (30,45],
  (15,30], (0,15]) and \<open>egfr_to_ranges\<close> the bucket, 1 to 8, of its interval.  For an
  eGFR of 0 or below \<open>egfr_to_stages\<close> returns no stage, while \<open>egfr_to_ranges\<close>
  returns bucket 8.
\<close>

theorem egfr_classification:
  "(0 < x \<longrightarrow>
      holding (stage_conditions x) = 1 \<and> holding (range_conditions x) = 1
      \<and> (egfr_to_stages x = Some G1 \<longleftrightarrow> 90 < x)
      \<and> (egfr_to_stages x = Some G2 \<longleftrightarrow> 60 < x \<and> x \<le> 90)
      \<and> (egfr_to_stages x = Some G3a \<longleftrightarrow> 45 < x \<and> x \<le> 60)
      \<and> (egfr_to_stages x = Some G3b \<longleftrightarrow> 30 < x \<and> x \<le> 45)
      \<and> (egfr_to_stages x = Some G4 \<longleftrightarrow> 15 < x \<and> x \<le> 30)
      \<and> (egfr_to_stages x = Some G5 \<longleftrightarrow> x \<le> 15)
      \<and> (egfr_to_ranges x = Some 1 \<longleftrightarrow> 105 < x)
      \<and> (egfr_to_ranges x = Some 2 \<longleftrightarrow> 90 < x \<and> x \<le> 105)
      \<and> (egfr_to_ranges x = Some 3 \<longleftrightarrow> 75 < x \<and> x \<le> 90)
      \<and> (egfr_to_ranges x = Some 4 \<longleftrightarrow> 60 < x \<and> x \<le> 75)
      \<and> (egfr_to_ranges x = Some 5 \<longleftrightarrow> 45 < x \<and> x \<le> 60)
      \<and> (egfr_to_ranges x = Some 6 \<longleftrightarrow> 30 < x \<and> x \<le> 45)
      \<and> (egfr_to_ranges x = Some 7 \<longleftrightarrow> 15 < x \<and> x \<le> 30)
      \<and> (egfr_to_ranges x = Some 8 \<longleftrightarrow> x \<le> 15))
   \<and> (x \<le> 0 \<longrightarrow> egfr_to_stages x = None \<and> egfr_to_ranges x = Some 8)"
proof (rule conjI; rule impI)
  assume pos: "0 < x"
  show "holding (stage_conditions x) = 1 \<and> holding (range_conditions x) = 1
      \<and> (egfr_to_stages x = Some G1 \<longleftrightarrow> 90 < x)
      \<and> (egfr_to_stages x = Some G2 \<longleftrightarrow> 60 < x \<and> x \<le> 90)
      \<and> (egfr_to_stages x = Some G3a \<longleftrightarrow> 45 < x \<and> x \<le> 60)
      \<and> (egfr_to_stages x = Some G3b \<longleftrightarrow> 30 < x \<and> x \<le> 45)
      \<and> (egfr_to_stages x = Some G4 \<longleftrightarrow> 15 < x \<and> x \<le> 30)
      \<and> (egfr_to_stages x = Some G5 \<longleftrightarrow> x \<le> 15)
      \<and> (egfr_to_ranges x = Some 1 \<longleftrightarrow> 105 < x)
      \<and> (egfr_to_ranges x = Some 2 \<longleftrightarrow> 90 < x \<and> x \<le> 105)
      \<and> (egfr_to_ranges x = Some 3 \<longleftrightarrow> 75 < x \<and> x \<le> 90)
      \<and> (egfr_to_ranges x = Some 4 \<longleftrightarrow> 60 < x \<and> x \<le> 75)
      \<and> (egfr_to_ranges x = Some 5 \<longleftrightarrow> 45 < x \<and> x \<le> 60)
      \<and> (egfr_to_ranges x = Some 6 \<longleftrightarrow> 30 < x \<and> x \<le> 45)
      \<and> (egfr_to_ranges x = Some 7 \<longleftrightarrow> 15 < x \<and> x \<le> 30)
      \<and> (egfr_to_ranges x = Some 8 \<longleftrightarrow> x \<le> 15)"
    using stage_holding_one[OF pos] range_holding_one[of x]
      stages_intervals[OF pos] ranges_intervals[OF pos]
    by (simp only: simp_thms)
next
  assume "x \<le> 0"
  then show "egfr_to_stages x = None \<and> egfr_to_ranges x = Some 8"
    by (rule nonpositive_classes)
qed

theorem egfr_classification_witness:
  "egfr_to_stages 50 = Some G3a \<and> egfr_to_ranges 50 = Some 5 \<and> holding (stage_conditions 50) = 1
   \<and> egfr_to_stages (- 1) = None \<and> egfr_to_ranges (- 1) = Some 8"
  using egfr_classification [of 50] egfr_classification [of "- 1"] by simp

text \<open>
  Claim C5 as stated fails at eGFR 0: \<open>egfr_to_ranges\<close> returns a bucket there, not a
  missing value.
\<close>

theorem egfr_to_ranges_nonpositive_counterexample:
  "(0::real) \<le> 0 \<and> egfr_to_ranges 0 \<noteq> None"
  by (simp add: egfr_to_ranges_def range_conditions_def)


lemma scale_pos: "0 < beta fm * (age_base fm) powr ag * sex_adj fm sx * race_adj fm rc"
  by (cases fm; cases sx; cases rc) simp_all

lemma kappa_pos: "0 < kappa fm sx"
  by (cases fm; cases sx) simp_all

lemma alpha_neg: "alpha fm sx < 0"
  by (cases fm; cases sx) simp_all

lemma max_exp_neg: "max_exp fm < 0"
  by (cases fm) simp_all

lemma powr_inv_le_one:
  fixes a e :: real
  assumes "1 \<le> a" "e < 0"
  shows "a powr (1 / e) \<le> 1"
proof -
  have "0 \<le> ln a" using assms(1) by simp
  moreover have "1 / e < 0" using assms(2) by simp
  ultimately have "(1 / e) * ln a \<le> 0" by (metis mult_nonpos_nonneg less_imp_le)
  then have "exp ((1 / e) * ln a) \<le> 1" by simp
  moreover have "a \<noteq> 0" using assms(1) by simp
  ultimately show ?thesis by (simp add: powr_def)
qed

lemma powr_inv_gt_one:
  fixes a e :: real
  assumes "0 < a" "a < 1" "e < 0"
  shows "1 < a powr (1 / e)"
proof -
  have "ln a < 0" using assms(1,2) by simp
  moreover have "1 / e < 0" using assms(3) by simp
  ultimately have "0 < (1 / e) * ln a" by (rule mult_neg_neg[rotated])
  then have "1 < exp ((1 / e) * ln a)" by simp
  then show ?thesis using assms(1) by (simp add: powr_def)
qed

lemma powr_inv_cancel:
  fixes a e :: real
  assumes "0 < a" "e \<noteq> 0"
  shows "(a powr (1 / e)) powr e = a"
  using assms by (simp add: powr_powr)

lemma piecewise_inverse:
  fixes a al me :: real
  assumes a: "0 < a" and al: "al < 0" and me: "me < 0"
  defines "s \<equiv> (if 1 \<le> a then a powr (1 / al) else a powr (1 / me))"
  shows "(min s 1) powr al * (max s 1) powr me = a"
proof (cases "1 \<le> a")
  case True
  then have s: "s = a powr (1 / al)" by (simp add: s_def)
  have "s \<le> 1" unfolding s using True al by (rule powr_inv_le_one)
  then have "min s 1 = s" "max s 1 = 1" by simp_all
  moreover have "s powr al = a" unfolding s using a al by (simp add: powr_inv_cancel)
  ultimately show ?thesis by simp
next
  case False
  then have s: "s = a powr (1 / me)" by (simp add: s_def)
  have "1 < s" unfolding s using a False me by (intro powr_inv_gt_one) simp_all
  then have "min s 1 = 1" "max s 1 = s" by simp_all
  moreover have "s powr me = a" unfolding s using a me by (simp add: powr_inv_cancel)
  ultimately show ?thesis by simp
qed

lemma creat_pos:
  assumes "0 < x"
  shows "0 < creat_from_eGFR x sx ag rc fm"
proof -
  define d where "d = beta fm * (age_base fm) powr ag * sex_adj fm sx * race_adj fm rc"
  have d: "0 < d" unfolding d_def by (rule scale_pos)
  then have "0 < x / d" using assms by simp
  moreover have "x / d \<noteq> 0" using assms d by simp
  ultimately show ?thesis
    using kappa_pos[of fm sx]
    by (simp add: creat_from_eGFR_def Let_def d_def[symmetric] del: divide_eq_0_iff)
qed

lemma CKD_EPI_creat:
  assumes "0 < x"
  shows "CKD_EPI (creat_from_eGFR x sx ag rc fm) sx ag rc fm = x"
proof -
  define d where "d = beta fm * (age_base fm) powr ag * sex_adj fm sx * race_adj fm rc"
  have d: "0 < d" unfolding d_def by (rule scale_pos)
  define a where "a = x / d"
  have a: "0 < a" using assms d by (simp add: a_def)
  have k: "0 < kappa fm sx" by (rule kappa_pos)
  define s where "s = (if 1 \<le> a then a powr (1 / alpha fm sx) else a powr (1 / max_exp fm))"
  have c: "creat_from_eGFR x sx ag rc fm = s * kappa fm sx"
    using a by (simp add: creat_from_eGFR_def Let_def a_def d_def s_def)
  have q: "creat_from_eGFR x sx ag rc fm / kappa fm sx = s"
    using k by (simp add: c)
  have p: "(min s 1) powr (alpha fm sx) * (max s 1) powr (max_exp fm) = a"
    unfolding s_def using a alpha_neg max_exp_neg by (rule piecewise_inverse)
  have "CKD_EPI (creat_from_eGFR x sx ag rc fm) sx ag rc fm
        = ((min s 1) powr (alpha fm sx) * (max s 1) powr (max_exp fm)) * d"
    unfolding CKD_EPI_def q d_def by (simp add: algebra_simps)
  also have "\<dots> = a * d" by (simp only: p)
  also have "\<dots> = x" using d by (simp add: a_def)
  finally show ?thesis .
qed

lemma CKD_EPI_pos:
  assumes "0 < scr"
  shows "0 < CKD_EPI scr sx ag rc fm"
proof -
  have "0 < scr / kappa fm sx" using assms kappa_pos[of fm sx] by simp
  then have "0 < min (scr / kappa fm sx) 1" "0 < max (scr / kappa fm sx) 1" by simp_all
  then have "0 < (min (scr / kappa fm sx) 1) powr (alpha fm sx) * (max (scr / kappa fm sx) 1) powr (max_exp fm)"
    by simp
  moreover have "CKD_EPI scr sx ag rc fm = ((min (scr / kappa fm sx) 1) powr (alpha fm sx) * (max (scr / kappa fm sx) 1) powr (max_exp fm)) * (beta fm * (age_base fm) powr ag * sex_adj fm sx * race_adj fm rc)"
    by (simp add: CKD_EPI_def algebra_simps)
  ultimately show ?thesis using scale_pos[of fm ag sx rc] by simp
qed

lemma creat_CKD_EPI:
  assumes "0 < scr"
  shows "creat_from_eGFR (CKD_EPI scr sx ag rc fm) sx ag rc fm = scr"
proof -
  define d where "d = beta fm * (age_base fm) powr ag * sex_adj fm sx * race_adj fm rc"
  have d: "0 < d" unfolding d_def by (rule scale_pos)
  have k: "0 < kappa fm sx" by (rule kappa_pos)
  define s where "s = scr / kappa fm sx"
  have s: "0 < s" using assms k by (simp add: s_def)
  define a where "a = (min s 1) powr (alpha fm sx) * (max s 1) powr (max_exp fm)"
  have e: "CKD_EPI scr sx ag rc fm = a * d"
    by (simp add: CKD_EPI_def a_def d_def s_def algebra_simps)
  have ad: "a * d / d = a" using d by simp
  have apos: "0 < a" using s by (simp add: a_def)
  have al: "alpha fm sx < 0" by (rule alpha_neg)
  have me: "max_exp fm < 0" by (rule max_exp_neg)
  have r: "creat_from_eGFR (CKD_EPI scr sx ag rc fm) sx ag rc fm
      = (if 1 \<le> a then a powr (1 / alpha fm sx) * kappa fm sx else a powr (1 / max_exp fm) * kappa fm sx)"
    using apos unfolding e creat_from_eGFR_def Let_def d_def[symmetric] ad by simp
  show ?thesis
  proof (cases "s \<le> 1")
    case True
    then have a1: "a = s powr (alpha fm sx)" by (simp add: a_def min_def max_def)
    have "0 \<le> - alpha fm sx * - ln s" using True s al by (intro mult_nonneg_nonneg) simp_all
    then have "1 \<le> a" unfolding a1 using s by (simp add: powr_def)
    moreover have "a powr (1 / alpha fm sx) = s" unfolding a1 using s al by (simp add: powr_powr)
    ultimately show ?thesis using k by (simp add: r s_def)
  next
    case False
    then have a1: "a = s powr (max_exp fm)" by (simp add: a_def min_def max_def)
    have "max_exp fm * ln s < 0" using False s me by (intro mult_neg_pos) simp_all
    then have "a < 1" unfolding a1 using s by (simp add: powr_def)
    moreover have "a powr (1 / max_exp fm) = s" unfolding a1 using s me by (simp add: powr_powr)
    ultimately show ?thesis using k by (simp add: r s_def)
  qed
qed

text \<open>
  Claim C6.  For every positive eGFR and every sex, age and race, translating from the
  2021 to the 2009 equation and back returns the original value (exactly, over the
  reals), and \<open>creat_from_eGFR\<close> inverts \<open>CKD_EPI\<close> in both directions for each
  equation.
\<close>

theorem round_trip_21_09_21:
  assumes "0 < x"
  shows "(\<exists>y. eGFR_2021_to_2009 x sx ag rc = Some y \<and> eGFR_2009_to_2021 y sx ag rc = Some x)
     \<and> CKD_EPI (creat_from_eGFR x sx ag rc fm) sx ag rc fm = x
     \<and> creat_from_eGFR (CKD_EPI x sx ag rc fm) sx ag rc fm = x"
proof -
  define c where "c = creat_from_eGFR x sx ag rc F21"
  have c: "0 < c" unfolding c_def using assms by (rule creat_pos)
  define y where "y = CKD_EPI c sx ag rc F09"
  have y: "0 < y" unfolding y_def using c by (rule CKD_EPI_pos)
  have 1: "eGFR_2021_to_2009 x sx ag rc = Some y"
    using assms c by (simp add: eGFR_2021_to_2009_def Let_def c_def[symmetric] y_def)
  have 2: "creat_from_eGFR y sx ag rc F09 = c"
    unfolding y_def using c by (rule creat_CKD_EPI)
  have 3: "CKD_EPI c sx ag rc F21 = x"
    unfolding c_def using assms by (rule CKD_EPI_creat)
  have "eGFR_2009_to_2021 y sx ag rc = Some x"
    using y c by (simp add: eGFR_2009_to_2021_def Let_def 2 3)
  with 1 show ?thesis
    using CKD_EPI_creat[OF assms] creat_CKD_EPI[OF assms] by blast
qed

theorem round_trip_21_09_21_witness:
  "(0::real) < 60
   \<and> (\<exists>y. eGFR_2021_to_2009 60 F 50 NB = Some y \<and> eGFR_2009_to_2021 y F 50 NB = Some 60)
   \<and> CKD_EPI (creat_from_eGFR 60 F 50 NB F09) F 50 NB F09 = 60"
  using round_trip_21_09_21 [of 60 F 50 NB F09] by simp

section \<open>Properties of the intervention sampler\<close>

lemma frac_bounds:
  "frac_already_intervened df ev = Inr f \<Longrightarrow> 0 \<le> f \<and> f \<le> 1"
  by (auto simp: frac_already_intervened_def split: if_splits
      intro!: divide_nonneg_nonneg)

lemma conditional_prob_neg:
  assumes "p < f" "f < 1"
  shows "\<exists>q. conditional_prob p f = Inr q \<and> q < 0"
  using assms by (simp add: conditional_prob_def divide_neg_pos)

lemma frac_nonempty:
  "frac_already_intervened df ev = Inr f \<Longrightarrow> df \<noteq> []"
  by (auto simp: frac_already_intervened_def split: if_splits)

lemma frac_defined:
  "df \<noteq> [] \<Longrightarrow> \<exists>f. frac_already_intervened df ev = Inr f \<and> 0 \<le> f"
  by (simp add: frac_already_intervened_def)

lemma binomial1_negative:
  "q < 0 \<Longrightarrow> n \<noteq> 0 \<Longrightarrow> binomial1 q n g = Inl ValueError"
  by (simp add: binomial1_def)

lemma sample_interventions_fresh:
  "sample_interventions df ev ip None g
     = on_ok (sampling_prob df ev ip) (\<lambda>prob.
         on_ok (binomial1 prob (length df) g) (\<lambda>(samples, g').
           Inr (assign_samples df ev samples, g')))"
  by (simp add: sample_interventions_def)

lemma sampling_raises:
  assumes one: "length (remdups (map stage_diag df)) = 1"
    and f: "frac_already_intervened df ev = Inr f"
    and p: "intervention_prob (stage_diag (hd df)) ip ev = Inr p"
    and pf: "p < f"
  shows "sample_interventions df ev ip None g
           = Inl (if f = 1 \<or> (ev = Nephr \<and> frac_already_intervened df Diag = Inr 0)
                  then ZeroDivisionError else ValueError)"
proof (cases "f = 1")
  case True
  then have "conditional_prob p f = Inl ZeroDivisionError" by (simp add: conditional_prob_def)
  then have "sampling_prob df ev ip = Inl ZeroDivisionError"
    using one f p by (simp add: sampling_prob_def on_ok_def)
  then show ?thesis using True by (simp add: sample_interventions_fresh on_ok_def)
next
  case False
  then have f1: "f < 1" using frac_bounds[OF f] by simp
  from conditional_prob_neg[OF pf f1] obtain q where q: "conditional_prob p f = Inr q" "q < 0"
    by blast
  have ne: "length df \<noteq> 0" using frac_nonempty[OF f] by simp
  show ?thesis
  proof (cases ev)
    case Diag
    then have "sampling_prob df ev ip = Inr q"
      using one f p q by (simp add: sampling_prob_def on_ok_def)
    then show ?thesis
      using False Diag binomial1_negative[OF q(2) ne]
      by (simp add: sample_interventions_fresh on_ok_def)
  next
    case Nephr
    from frac_defined[of df Diag] ne obtain fd where
      fd: "frac_already_intervened df Diag = Inr fd" "0 \<le> fd" by auto
    show ?thesis
    proof (cases "fd = 0")
      case True
      then have "sampling_prob df ev ip = Inl ZeroDivisionError"
        using Nephr one f p q fd by (simp add: sampling_prob_def on_ok_def)
      then show ?thesis using Nephr fd True by (simp add: sample_interventions_fresh on_ok_def)
    next
      case nz: False
      then have "q / fd < 0" using q(2) fd(2) by (simp add: divide_neg_pos)
      moreover have "sampling_prob df ev ip = Inr (q / fd)"
        using Nephr one f p q fd nz by (simp add: sampling_prob_def on_ok_def)
      ultimately show ?thesis
        using False Nephr fd nz binomial1_negative[of "q / fd" "length df" g] ne
        by (simp add: sample_interventions_fresh on_ok_def)
    qed
  qed
qed

text \<open>
  Claim C3 (amended).  \<open>conditional_prob p f\<close> returns \<open>(p - f) / (1 - f)\<close> for
  \<open>f < 1\<close>: 0.375 at (0.5, 0.2) and 0 at (0.5, 0.5).  It has no check of \<open>f > p\<close>:
  for \<open>p < f < 1\<close> it returns the negative quotient itself, and at \<open>f = 1\<close> it raises
  \<open>ZeroDivisionError\<close>.  On a single-stage table whose intervened fraction \<open>f\<close> exceeds
  the target probability \<open>p\<close>, \<open>sample_interventions\<close> called without common random
  numbers raises: \<open>ZeroDivisionError\<close> when \<open>f = 1\<close> or, for \<open>nephr\<close>, when nobody is
  diagnosed, and otherwise \<open>ValueError\<close>, the binomial draw rejecting the negative
  probability.
\<close>

theorem conditional_prob_behaviour:
  "(f < 1 \<longrightarrow> conditional_prob p f = Inr ((p - f) / (1 - f)))
   \<and> conditional_prob 0.5 0.2 = Inr 0.375
   \<and> conditional_prob 0.5 0.5 = Inr 0
   \<and> (p < f \<and> f < 1 \<longrightarrow> (\<exists>q. conditional_prob p f = Inr q \<and> q < 0))
   \<and> conditional_prob p 1 = Inl ZeroDivisionError
   \<and> (length (remdups (map stage_diag df)) = 1
        \<and> frac_already_intervened df ev = Inr f
        \<and> intervention_prob (stage_diag (hd df)) ip ev = Inr p
        \<and> p < f
      \<longrightarrow> sample_interventions df ev ip None g
            = Inl (if f = 1 \<or> (ev = Nephr \<and> frac_already_intervened df Diag = Inr 0)
                   then ZeroDivisionError else ValueError))"
proof (intro conjI impI)
  show "conditional_prob 0.5 0.2 = Inr 0.375" by (simp add: conditional_prob_def)
  show "conditional_prob 0.5 0.5 = Inr 0" by (simp add: conditional_prob_def)
  show "conditional_prob p 1 = Inl ZeroDivisionError" by (simp add: conditional_prob_def)
  show "conditional_prob p f = Inr ((p - f) / (1 - f))" if "f < 1"
    using that by (simp add: conditional_prob_def)
  show "\<exists>q. conditional_prob p f = Inr q \<and> q < 0" if "p < f \<and> f < 1"
    using that conditional_prob_neg by blast
next
  assume h: "length (remdups (map stage_diag df)) = 1
        \<and> frac_already_intervened df ev = Inr f
        \<and> intervention_prob (stage_diag (hd df)) ip ev = Inr p
        \<and> p < f"
  then show "sample_interventions df ev ip None g
            = Inl (if f = 1 \<or> (ev = Nephr \<and> frac_already_intervened df Diag = Inr 0)
                   then ZeroDivisionError else ValueError)"
    using sampling_raises[of df ev f ip p g] by blast
qed

theorem conditional_prob_behaviour_witness:
  "sample_interventions at_cutoff_example Diag interv_params_example None constant_rng
     = Inl ValueError
   \<and> conditional_prob 0.5 0.6 = Inr (- 0.25)
   \<and> conditional_prob 0.5 1 = Inl ZeroDivisionError"
proof -
  have 1: "length (remdups (map stage_diag at_cutoff_example)) = 1"
    by (simp add: at_cutoff_example_def)
  have 2: "frac_already_intervened at_cutoff_example Diag = Inr 0.6"
    by (simp add: at_cutoff_example_def frac_already_intervened_def blank_row_def)
  have 3: "intervention_prob (stage_diag (hd at_cutoff_example)) interv_params_example Diag
             = Inr 0.5"
    by (simp add: at_cutoff_example_def intervention_prob_def interv_params_example_def)
  show ?thesis
    using conditional_prob_behaviour [where f = "0.6" and p = "0.5" and df = at_cutoff_example
        and ev = Diag and ip = interv_params_example and g = constant_rng] 1 2 3
    by simp
qed

text \<open>
  Claim C3 as stated fails at target 0.5 and intervened fraction 0.6:
  \<open>conditional_prob\<close> returns the negative value, and sampling with common random
  numbers raises nothing: it returns the table with no new diagnosis.
\<close>

theorem negative_probability_counterexample:
  "(0.5::real) < 0.6
   \<and> conditional_prob 0.5 0.6 = Inr (- 0.25)
   \<and> \<not> isl (sample_interventions at_cutoff_example Diag interv_params_example
               (Some [0.1, 0.2, 0.3, 0.4, 0.5]) constant_rng)
   \<and> map diag (fst (projr (sample_interventions at_cutoff_example Diag interv_params_example
               (Some [0.1, 0.2, 0.3, 0.4, 0.5]) constant_rng)))
      = [Some 0, Some 0, Some 0, Some 0, Some 0]"
proof -
  have "sampling_prob at_cutoff_example Diag interv_params_example = Inr (- 0.25)"
    by (simp add: sampling_prob_def at_cutoff_example_def frac_already_intervened_def
        blank_row_def intervention_prob_def interv_params_example_def conditional_prob_def
        on_ok_def)
  then show ?thesis
    by (simp add: sample_interventions_def on_ok_def conditional_prob_def
        at_cutoff_example_def assign_samples_def)
qed

section \<open>Properties of death sampling\<close>

lemma length_cumsum_from: "length (cumsum_from a xs) = length xs"
  by (induction xs arbitrary: a) simp_all

lemma length_survival: "length h \<le> length (survival_from_hazards h)"
proof -
  define surv where "surv = map (\<lambda>x. exp (- x)) (cumsum h)"
  have l: "length surv = length h" by (simp add: surv_def cumsum_def length_cumsum_from)
  have e: "survival_from_hazards h = (if surv = [] then [1] else surv[0 := 1])"
    by (simp add: survival_from_hazards_def surv_def)
  show ?thesis
  proof (cases "surv = []")
    case True
    then have "length h = 0" using l by simp
    then show ?thesis by simp
  next
    case False
    then show ?thesis using l e by simp
  qed
qed

lemma set_column_fst:
  "l \<in> fst ` set cols \<Longrightarrow> map fst (set_column l v cols) = map fst cols"
  by (auto simp: set_column_def split: prod.splits)

lemma anchored_set_column:
  assumes a: "a \<le> 100"
    and lab: "map fst cols = [a..<n]"
  shows "anchored a v (set_column 100 v cols)"
proof (cases "100 \<in> fst ` set cols")
  case True
  then have "100 \<in> set (map fst cols)" by simp
  then have n: "100 < n" using lab by simp
  have len: "length cols = n - a" using lab by (metis length_map length_upt)
  let ?k = "100 - a"
  have k: "?k < length cols" using n a len by simp
  have "fst (cols ! ?k) = map fst cols ! ?k" using k by simp
  also have "\<dots> = [a..<n] ! ?k" by (simp only: lab)
  also have "\<dots> = a + ?k" using k len by simp
  also have "\<dots> = 100" using a by simp
  finally have fk: "fst (cols ! ?k) = 100" .
  have sc: "set_column 100 v cols = map (\<lambda>(k, x). if k = 100 then (k, v) else (k, x)) cols"
    using True by (simp add: set_column_def)
  have 1: "set_column 100 v cols ! ?k = (100, v)"
    using k fk by (simp add: sc split: prod.splits) (metis fst_conv)
  have 2: "a \<le> fst (set_column 100 v cols ! j) \<and> fst (set_column 100 v cols ! j) \<le> 100"
    if "j \<le> ?k" for j
  proof -
    have jl: "j < length cols" using that k by simp
    have "fst (set_column 100 v cols ! j) = map fst (set_column 100 v cols) ! j"
      using jl by (simp add: sc)
    also have "\<dots> = [a..<n] ! j" using set_column_fst[OF True] lab by simp
    also have "\<dots> = a + j" using jl len by simp
    finally show ?thesis using that a by simp
  qed
  show ?thesis unfolding anchored_def
    using k 1 2 by (intro exI[of _ ?k]) (simp add: sc)
next
  case False
  then have "100 \<notin> set (map fst cols)" by simp
  then have n: "n \<le> 100 \<or> n \<le> a" using lab a by auto
  have len: "length cols = n - a" using lab by (metis length_map length_upt)
  have sc: "set_column 100 v cols = cols @ [(100, v)]"
    using False by (simp add: set_column_def)
  have 2: "a \<le> fst ((cols @ [(100, v)]) ! j) \<and> fst ((cols @ [(100, v)]) ! j) \<le> 100"
    if "j \<le> length cols" for j
  proof (cases "j < length cols")
    case True
    then have "fst ((cols @ [(100, v)]) ! j) = map fst cols ! j" by (simp add: nth_append)
    also have "\<dots> = a + j" using True len lab by simp
    finally show ?thesis using True len n by auto
  next
    case False
    then have "j = length cols" using that by simp
    then show ?thesis using a by simp
  qed
  show ?thesis unfolding anchored_def sc
    using 2 by (intro exI[of _ "length cols"]) simp
qed

lemma conditional_on_survival_anchored:
  assumes "0 < a" "a \<le> 100" "a - 1 < length surv"
  shows "\<exists>cols. conditional_on_survival a surv = Inr cols \<and> anchored a 0 cols"
proof -
  let ?t = "map (\<lambda>j. (j, surv ! j / surv ! (a - 1))) [a..<length surv]"
  have "map fst ?t = [a..<length surv]" by (simp add: comp_def)
  from anchored_set_column[OF assms(2) this]
  have "anchored a 0 (set_column 100 0 ?t)" .
  then show ?thesis using assms by (simp add: conditional_on_survival_def Let_def)
qed

lemma first_true_crossing:
  "True \<in> set bs \<Longrightarrow>
     first_true bs < length bs \<and> bs ! first_true bs \<and> (\<forall>i < first_true bs. \<not> bs ! i)"
proof (induction bs)
  case Nil
  then show ?case by simp
next
  case (Cons b bs)
  show ?case
  proof (cases b)
    case True
    then show ?thesis by simp
  next
    case False
    then have "True \<in> set bs" using Cons.prems by auto
    from Cons.IH[OF this] False show ?thesis by (auto simp: less_Suc_eq_0_disj)
  qed
qed

lemma first_true_le: "k < length bs \<Longrightarrow> bs ! k \<Longrightarrow> first_true bs \<le> k"
proof (induction bs arbitrary: k)
  case Nil
  then show ?case by simp
next
  case (Cons b bs)
  then show ?case by (cases k) auto
qed

lemma sample_row_crossing:
  assumes anc: "anchored a 0 cols" and u: "u \<le> 1"
  shows "\<exists>l. sample_row (map (\<lambda>(l, s). (l, 1 - s)) cols, u) = Inr l
           \<and> crossing (map (\<lambda>(l, s). (l, 1 - s)) cols) u l \<and> a \<le> l \<and> l \<le> 100"
proof -
  define cdf where "cdf = map (\<lambda>(l, s). (l, 1 - s)) cols"
  define bs where "bs = map (\<lambda>(l, c). c \<ge> u) cdf"
  from anc obtain k where k: "k < length cols" "cols ! k = (100, 0)"
    and b: "\<forall>j \<le> k. a \<le> fst (cols ! j) \<and> fst (cols ! j) \<le> 100"
    unfolding anchored_def by blast
  have lb: "length bs = length cdf" by (simp add: bs_def)
  have lc: "length cdf = length cols" by (simp add: cdf_def)
  have bsn: "bs ! i = (u \<le> snd (cdf ! i))" if "i < length cdf" for i
    using that by (simp add: bs_def split_beta)
  have bk: "bs ! k" using k u by (simp add: bs_def cdf_def)
  have kl: "k < length bs" using k by (simp add: bs_def cdf_def)
  then have t: "True \<in> set bs" using bk nth_mem[of k bs] by simp
  have ne: "bs \<noteq> []" using kl by auto
  define j where "j = first_true bs"
  from first_true_crossing[OF t]
  have j: "j < length bs" "bs ! j" "\<forall>i < j. \<not> bs ! i" by (simp_all add: j_def)
  have ft: "j \<le> k" unfolding j_def using kl bk by (rule first_true_le)
  have am: "argmax bs = Inr j" using ne t by (simp add: argmax_def j_def)
  have sr: "sample_row (cdf, u) = Inr (fst (cdf ! j))"
    unfolding sample_row_def by (simp add: bs_def[symmetric] am on_ok_def)
  have c1: "u \<le> snd (cdf ! j)" using j(1,2) lb bsn by simp
  have c2: "\<forall>i < j. snd (cdf ! i) < u"
  proof (intro allI impI)
    fix i assume "i < j"
    then have "\<not> bs ! i" "i < length cdf" using j(1,3) lb by simp_all
    then show "snd (cdf ! i) < u" using bsn by simp
  qed
  have cr: "crossing cdf u (fst (cdf ! j))"
    unfolding crossing_def using j(1) lb c1 c2 by (intro exI[of _ j]) simp
  have "fst (cdf ! j) = fst (cols ! j)"
    using j(1) lb lc by (simp add: cdf_def split_beta)
  then have "a \<le> fst (cdf ! j) \<and> fst (cdf ! j) \<le> 100" using b ft by simp
  then show ?thesis
    unfolding cdf_def[symmetric] using sr cr by blast
qed

lemma all_ok_map:
  assumes "\<forall>x\<in>set xs. \<exists>y. f x = Inr y \<and> P x y"
  shows "\<exists>ys. all_ok (map f xs) = Inr ys \<and> list_all2 P xs ys"
  using assms
proof (induction xs)
  case Nil
  then show ?case by simp
next
  case (Cons x xs)
  then obtain y ys where "f x = Inr y" "P x y" "all_ok (map f xs) = Inr ys" "list_all2 P xs ys"
    by auto
  then show ?case by simp
qed

lemma list_all2_right_only:
  "list_all2 (\<lambda>x y. Q y) xs ys \<Longrightarrow> \<forall>y\<in>set ys. Q y"
  by (induction xs ys rule: list_all2_induct) simp_all

lemma uniforms_bounds:
  assumes "\<forall>i. 0 \<le> g i \<and> g i < 1" and "uniforms n g = (us, g')"
  shows "length us = n \<and> (\<forall>u\<in>set us. 0 \<le> u \<and> u < 1) \<and> (\<forall>i. 0 \<le> g' i \<and> g' i < 1)"
  using assms by (auto simp: uniforms_def)

lemma resolve_cont_draws:
  assumes g: "\<forall>i. 0 \<le> g i \<and> g i < 1" and ok: "cont_draws_ok n s"
  shows "\<exists>us g'. draws_used n s g = (us, g')
           \<and> length us = n \<and> (\<forall>u\<in>set us. 0 \<le> u \<and> u < 1) \<and> (\<forall>i. 0 \<le> g' i \<and> g' i < 1)"
proof (cases s)
  case None
  obtain us g' where u: "uniforms n g = (us, g')" by (cases "uniforms n g")
  have "length us = n \<and> (\<forall>u\<in>set us. 0 \<le> u \<and> u < 1) \<and> (\<forall>i. 0 \<le> g' i \<and> g' i < 1)"
    using g u by (rule uniforms_bounds)
  moreover have "draws_used n s g = (us, g')"
    by (simp add: draws_used_def None u)
  ultimately show ?thesis by blast
next
  case (Some c)
  have "length c = n \<and> (\<forall>u\<in>set c. 0 \<le> u \<and> u < 1)"
    using ok by (simp add: cont_draws_ok_def Some)
  moreover have "draws_used n s g = (c, g)"
    by (simp add: draws_used_def Some)
  ultimately show ?thesis using g by blast
qed

lemma resolve_year_draws:
  assumes g: "\<forall>i. 0 \<le> g i \<and> g i < 1" and ok: "year_draws_ok n s"
  shows "\<exists>us g'. draws_used n s g = (us, g')
           \<and> length us = n \<and> (\<forall>u\<in>set us. 0 \<le> u \<and> u \<le> 1)"
proof (cases s)
  case None
  obtain us g' where u: "uniforms n g = (us, g')" by (cases "uniforms n g")
  have "length us = n \<and> (\<forall>u\<in>set us. 0 \<le> u \<and> u < 1) \<and> (\<forall>i. 0 \<le> g' i \<and> g' i < 1)"
    using g u by (rule uniforms_bounds)
  then have "length us = n \<and> (\<forall>u\<in>set us. 0 \<le> u \<and> u \<le> 1)" by fastforce
  moreover have "draws_used n s g = (us, g')"
    by (simp add: draws_used_def None u)
  ultimately show ?thesis by blast
next
  case (Some c)
  have "length c = n \<and> (\<forall>u\<in>set c. 0 \<le> u \<and> u \<le> 1)"
    using ok by (simp add: year_draws_ok_def Some)
  moreover have "draws_used n s g = (c, g)"
    by (simp add: draws_used_def Some)
  ultimately show ?thesis by blast
qed

lemma sample_cat_vectorized_crossing:
  assumes anc: "\<forall>cols\<in>set rows. anchored a 0 cols"
    and len: "length us = length rows" and us: "\<forall>u\<in>set us. u \<le> 1"
    and res: "draws_used (length rows) s g = (us, g')"
  shows "\<exists>ls. sample_cat_vectorized (map (map (\<lambda>(l, s). (l, 1 - s))) rows) s g = Inr (ls, g')
           \<and> length ls = length rows
           \<and> (\<forall>k < length rows.
                 crossing (map (\<lambda>(l, s). (l, 1 - s)) (rows ! k)) (us ! k) (ls ! k)
                 \<and> a \<le> ls ! k \<and> ls ! k \<le> 100)"
proof -
  define cdf where "cdf = map (map (\<lambda>(l, s). (l::nat, 1 - s :: real))) rows"
  define P where "P = (\<lambda>(p :: (nat \<times> real) list \<times> real) l.
     crossing (fst p) (snd p) l \<and> a \<le> l \<and> l \<le> 100)"
  have lc: "length cdf = length rows" by (simp add: cdf_def)
  have br: "broadcast cdf us = Inr (zip cdf us)" using len by (simp add: broadcast_def cdf_def)
  have "\<forall>p\<in>set (zip cdf us). \<exists>l. sample_row p = Inr l \<and> P p l"
  proof
    fix p assume "p \<in> set (zip cdf us)"
    then obtain c u where p: "p = (c, u)" "c \<in> set cdf" "u \<in> set us"
      by (metis in_set_zipE prod.collapse)
    then obtain cols where "cols \<in> set rows" "c = map (\<lambda>(l, s). (l, 1 - s)) cols"
      by (auto simp: cdf_def)
    then show "\<exists>l. sample_row p = Inr l \<and> P p l"
      using sample_row_crossing[of a cols u] anc us p by (auto simp: P_def)
  qed
  from all_ok_map[OF this] obtain ls where ls: "all_ok (map sample_row (zip cdf us)) = Inr ls"
    "list_all2 P (zip cdf us) ls" by blast
  have l1: "length ls = length rows"
    using ls(2) len lc by (auto dest: list_all2_lengthD)
  have l2: "crossing (map (\<lambda>(l, s). (l, 1 - s)) (rows ! k)) (us ! k) (ls ! k)
              \<and> a \<le> ls ! k \<and> ls ! k \<le> 100" if "k < length rows" for k
  proof -
    have "k < length (zip cdf us)" using that len lc by simp
    then have "P (zip cdf us ! k) (ls ! k)" using ls(2) by (simp add: list_all2_conv_all_nth)
    moreover have "zip cdf us ! k = (map (\<lambda>(l, s). (l, 1 - s)) (rows ! k), us ! k)"
      using that len by (simp add: cdf_def)
    ultimately show ?thesis by (simp add: P_def)
  qed
  have "sample_cat_vectorized cdf s g = Inr (ls, g')"
    unfolding sample_cat_vectorized_def lc res[unfolded draws_used_def]
    by (simp add: br ls(1) on_ok_def)
  then show ?thesis
    unfolding cdf_def[symmetric] using l1 l2 by blast
qed

text \<open>
  Claim C10.  For any hazard table with the column of age \<open>init_age - 1\<close>, a cohort-entry
  age between 1 and 100, a year draw in \<open>[0, 1]\<close> and a within-year offset in \<open>[0, 1)\<close>
  for every individual (supplied, or taken from the generator), death-age sampling
  returns, whatever the hazard values are.  \<open>conditional_on_survival\<close> puts the value 0
  in the column of age 100 of every row, so the CDF inverted is exactly 1 there;
  \<open>sample_cat_vectorized\<close> returns for every individual the crossing of the individual's
  year draw, that is the age of the first column whose CDF value reaches the draw, and
  this age lies between the entry age and 100; the death age is that age plus the offset,
  hence below 101.  The offsets are drawn before the year draws.
\<close>

theorem death_age_bounded:
  assumes init: "0 < init_age" "init_age \<le> 100"
    and cols: "\<forall>h\<in>set final_hazards. init_age \<le> length h"
    and rng: "\<forall>i. 0 \<le> g i \<and> g i < 1"
    and sy: "year_draws_ok (length final_hazards) sample_year"
    and sc: "cont_draws_ok (length final_hazards) sample_cont"
  shows "\<exists>surv_updated cont g1 years g2 ages.
           all_ok (map (conditional_on_survival init_age \<circ> survival_from_hazards) final_hazards)
             = Inr surv_updated
         \<and> length surv_updated = length final_hazards
         \<and> (\<forall>row\<in>set surv_updated.
               (100, 0) \<in> set row \<and> (100, 1) \<in> set (map (\<lambda>(l, s). (l, 1 - s)) row))
         \<and> draws_used (length final_hazards) sample_cont g = (cont, g1)
         \<and> draws_used (length final_hazards) sample_year g1 = (years, g2)
         \<and> sample_cat_vectorized (map (map (\<lambda>(l, s). (l, 1 - s))) surv_updated) sample_year g1
             = Inr (ages, g2)
         \<and> length ages = length final_hazards
         \<and> (\<forall>k < length final_hazards.
               crossing (map (\<lambda>(l, s). (l, 1 - s)) (surv_updated ! k)) (years ! k) (ages ! k)
               \<and> init_age \<le> ages ! k \<and> ages ! k \<le> 100
               \<and> 0 \<le> cont ! k \<and> cont ! k < 1)
         \<and> get_death_ages final_hazards init_age sample_year sample_cont g
             = Inr (map (\<lambda>k. real (ages ! k) + cont ! k) [0..<length final_hazards], g2)
         \<and> (\<forall>k < length final_hazards.
               real init_age \<le> real (ages ! k) + cont ! k \<and> real (ages ! k) + cont ! k < 101)"
proof -
  let ?f = "conditional_on_survival init_age \<circ> survival_from_hazards"
  let ?n = "length final_hazards"
  have step: "\<exists>surv_t. ?f h = Inr surv_t \<and> anchored init_age 0 surv_t"
    if "h \<in> set final_hazards" for h
  proof -
    have "init_age - 1 < length (survival_from_hazards h)"
      using that cols init(1) length_survival[of h] by fastforce
    from conditional_on_survival_anchored[OF init this] show ?thesis by simp
  qed
  have "\<forall>h\<in>set final_hazards. \<exists>surv_t. ?f h = Inr surv_t \<and> (\<lambda>h. anchored init_age 0) h surv_t"
    using step by blast
  from all_ok_map[OF this] obtain rows where rows: "all_ok (map ?f final_hazards) = Inr rows"
    "list_all2 (\<lambda>h. anchored init_age 0) final_hazards rows" by blast
  have lr: "length rows = ?n" using rows(2) by (auto dest: list_all2_lengthD)
  have anc: "\<forall>cols\<in>set rows. anchored init_age 0 cols"
    using rows(2) by (rule list_all2_right_only)
  have cells: "\<forall>row\<in>set rows.
      (100, 0) \<in> set row \<and> (100, 1) \<in> set (map (\<lambda>(l, s). (l, 1 - s)) row)"
  proof
    fix row assume "row \<in> set rows"
    then have "anchored init_age 0 row" using anc by simp
    then obtain k where "k < length row" "row ! k = (100, 0)"
      unfolding anchored_def by auto
    then have m: "(100, 0) \<in> set row" using nth_mem[of k row] by simp
    then have "(\<lambda>(l, s). (l, 1 - s)) (100::nat, 0::real) \<in> (\<lambda>(l, s). (l, 1 - s)) ` set row"
      by (rule imageI)
    then show "(100, 0) \<in> set row \<and> (100, 1) \<in> set (map (\<lambda>(l, s). (l, 1 - s)) row)"
      using m by simp
  qed
  from resolve_cont_draws[OF rng sc] obtain cont g1 where
    c: "draws_used ?n sample_cont g = (cont, g1)"
    and lc: "length cont = ?n" and bc: "\<forall>u\<in>set cont. 0 \<le> u \<and> u < 1"
    and g1: "\<forall>i. 0 \<le> g1 i \<and> g1 i < 1" by blast
  from resolve_year_draws[OF g1 sy] obtain us g2 where
    u: "draws_used ?n sample_year g1 = (us, g2)"
    and lu: "length us = ?n" and bu: "\<forall>u\<in>set us. 0 \<le> u \<and> u \<le> 1" by blast
  have "\<exists>ls. sample_cat_vectorized (map (map (\<lambda>(l, s). (l, 1 - s))) rows) sample_year g1 = Inr (ls, g2)
           \<and> length ls = length rows
           \<and> (\<forall>k < length rows.
                 crossing (map (\<lambda>(l, s). (l, 1 - s)) (rows ! k)) (us ! k) (ls ! k)
                 \<and> init_age \<le> ls ! k \<and> ls ! k \<le> 100)"
  proof (rule sample_cat_vectorized_crossing[OF anc])
    show "length us = length rows" using lu lr by simp
    show "\<forall>u\<in>set us. u \<le> 1" using bu by simp
    show "draws_used (length rows) sample_year g1 = (us, g2)"
      unfolding lr by (rule u)
  qed
  then obtain ls where ls: "sample_cat_vectorized (map (map (\<lambda>(l, s). (l, 1 - s))) rows) sample_year g1 = Inr (ls, g2)"
    "length ls = length rows"
    "\<forall>k < length rows. crossing (map (\<lambda>(l, s). (l, 1 - s)) (rows ! k)) (us ! k) (ls ! k)
                 \<and> init_age \<le> ls ! k \<and> ls ! k \<le> 100" by blast
  have br: "broadcast ls cont = Inr (zip ls cont)" using ls(2) lr lc by (simp add: broadcast_def)
  have ds: "map (\<lambda>(a, c). real a + c) (zip ls cont) = map (\<lambda>k. real (ls ! k) + cont ! k) [0..<?n]"
    using ls(2) lr lc by (intro nth_equalityI) simp_all
  have r: "get_death_ages final_hazards init_age sample_year sample_cont g
      = Inr (map (\<lambda>k. real (ls ! k) + cont ! k) [0..<?n], g2)"
    unfolding get_death_ages_def c[unfolded draws_used_def]
    by (simp add: rows(1) on_ok_def Let_def ls(1) br ds)
  have per: "crossing (map (\<lambda>(l, s). (l, 1 - s)) (rows ! k)) (us ! k) (ls ! k)
               \<and> init_age \<le> ls ! k \<and> ls ! k \<le> 100
               \<and> 0 \<le> cont ! k \<and> cont ! k < 1" if "k < ?n" for k
  proof -
    have "cont ! k \<in> set cont" using that lc by simp
    then show ?thesis using ls(3) lr that bc by simp
  qed
  have bnd: "real init_age \<le> real (ls ! k) + cont ! k \<and> real (ls ! k) + cont ! k < 101"
    if "k < ?n" for k
  proof -
    from per[OF that] have "real init_age \<le> real (ls ! k)" "real (ls ! k) \<le> 100"
      "0 \<le> cont ! k" "cont ! k < 1" by simp_all
    then show ?thesis by linarith
  qed
  show ?thesis
    using rows(1) lr cells c u ls(1) ls(2) per r bnd
    by (intro exI[of _ rows] exI[of _ cont] exI[of _ g1] exI[of _ us] exI[of _ g2] exI[of _ ls])
       simp
qed

theorem death_age_bounded_witness:
  "\<exists>surv_updated cont g1 years g2 ages.
       all_ok (map (conditional_on_survival 30 \<circ> survival_from_hazards) [replicate 101 0])
         = Inr surv_updated
     \<and> length surv_updated = 1
     \<and> (\<forall>row\<in>set surv_updated.
           (100, 0) \<in> set row \<and> (100, 1) \<in> set (map (\<lambda>(l, s). (l, 1 - s)) row))
     \<and> draws_used 1 (Some [1 / 4]) constant_rng = (cont, g1)
     \<and> draws_used 1 (Some [1]) g1 = (years, g2)
     \<and> sample_cat_vectorized (map (map (\<lambda>(l, s). (l, 1 - s))) surv_updated) (Some [1]) g1
         = Inr (ages, g2)
     \<and> length ages = 1
     \<and> crossing (map (\<lambda>(l, s). (l, 1 - s)) (surv_updated ! 0)) 1 (ages ! 0)
     \<and> 30 \<le> ages ! 0 \<and> ages ! 0 \<le> 100
     \<and> get_death_ages [replicate 101 0] 30 (Some [1]) (Some [1 / 4]) constant_rng
         = Inr ([real (ages ! 0) + 1 / 4], constant_rng)
     \<and> real (ages ! 0) + 1 / 4 < 101"
proof -
  have rng: "\<forall>i. 0 \<le> constant_rng i \<and> constant_rng i < 1" by (simp add: constant_rng_def)
  have sy: "year_draws_ok (length [replicate 101 (0::real)]) (Some [1])"
    by (simp add: year_draws_ok_def)
  have sc: "cont_draws_ok (length [replicate 101 (0::real)]) (Some [1 / 4])"
    by (simp add: cont_draws_ok_def)
  have cols: "\<forall>h\<in>set [replicate 101 (0::real)]. 30 \<le> length h" by simp
  from death_age_bounded[of 30 "[replicate 101 0]" constant_rng "Some [1]" "Some [1 / 4]",
      OF _ _ cols rng sy sc]
  obtain surv_updated cont g1 years g2 ages where
    h: "all_ok (map (conditional_on_survival 30 \<circ> survival_from_hazards) [replicate 101 0])
         = Inr surv_updated"
     "length surv_updated = length [replicate 101 (0::real)]"
     "\<forall>row\<in>set surv_updated.
           (100, 0) \<in> set row \<and> (100, 1) \<in> set (map (\<lambda>(l, s). (l, 1 - s)) row)"
     "draws_used (length [replicate 101 (0::real)]) (Some [1 / 4]) constant_rng = (cont, g1)"
     "draws_used (length [replicate 101 (0::real)]) (Some [1]) g1 = (years, g2)"
     "sample_cat_vectorized (map (map (\<lambda>(l, s). (l, 1 - s))) surv_updated) (Some [1]) g1
         = Inr (ages, g2)"
     "length ages = length [replicate 101 (0::real)]"
     "\<forall>k < length [replicate 101 (0::real)].
               crossing (map (\<lambda>(l, s). (l, 1 - s)) (surv_updated ! k)) (years ! k) (ages ! k)
               \<and> 30 \<le> ages ! k \<and> ages ! k \<le> 100
               \<and> 0 \<le> cont ! k \<and> cont ! k < 1"
     "get_death_ages [replicate 101 0] 30 (Some [1]) (Some [1 / 4]) constant_rng
             = Inr (map (\<lambda>k. real (ages ! k) + cont ! k) [0..<length [replicate 101 (0::real)]], g2)"
     "\<forall>k < length [replicate 101 (0::real)].
               real 30 \<le> real (ages ! k) + cont ! k \<and> real (ages ! k) + cont ! k < 101"
    by auto
  have d: "cont = [1 / 4]" "g1 = constant_rng" "years = [1]" "g2 = constant_rng"
    using h(4,5) by (simp_all add: draws_used_def)
  show ?thesis
    using h d
    by (intro exI[of _ surv_updated] exI[of _ cont] exI[of _ g1] exI[of _ years]
          exI[of _ g2] exI[of _ ages]) simp
qed

text \<open>
  At the boundary draw 1 the crossing is the column of age 100, whose CDF value is forced
  to 1: on a table of zero hazards over the ages 0 to 2, entered at age 2, the death age
  is 100.25.
\<close>

lemma get_death_ages_boundary_example:
  "get_death_ages [[0, 0, 0]] 2 (Some [1]) (Some [1 / 4]) constant_rng
     = Inr ([100 + 1 / 4], constant_rng)"
  by (simp add: get_death_ages_def survival_from_hazards_def cumsum_def
      conditional_on_survival_def set_column_def sample_cat_vectorized_def broadcast_def
      sample_row_def argmax_def on_ok_def Let_def)


section \<open>Properties of the decline integrator\<close>

lemma rint_close: "\<bar>of_int (rint x) - x\<bar> \<le> 1 / 2"
proof -
  have "of_int \<lfloor>x\<rfloor> \<le> x" "x < of_int \<lfloor>x\<rfloor> + 1" by linarith+
  then show ?thesis by (auto simp: rint_def Let_def)
qed

lemma round2_close: "\<bar>round2 x - x\<bar> \<le> 1 / 200"
proof -
  have "\<bar>of_int (rint (x * 100)) - x * 100\<bar> \<le> 1 / 2" by (rule rint_close)
  then show ?thesis by (simp add: round2_def field_simps abs_le_iff)
qed

lemma length_group_diff [simp]: "length (group_diff seen df) = length df"
  by (induction df arbitrary: seen) simp_all

lemma length_group_cumsum [simp]: "length (group_cumsum acc xs) = length xs"
proof (induction xs arbitrary: acc)
  case Nil
  then show ?case by simp
next
  case (Cons x xs)
  obtain p v where "x = (p, v)" by (cases x)
  then show ?case using Cons by (cases v) simp_all
qed

lemma length_shift_up [simp]: "length (shift_up xs) = length xs"
  by (simp add: shift_up_def)

lemma length_shift_down [simp]: "length (shift_down xs) = length xs"
  by (simp add: shift_down_def)

lemma length_degfr_column [simp]: "length (degfr_column df) = length df"
  by (simp add: degfr_column_def)

lemma length_degfr_cum_column [simp]: "length (degfr_cum_column df) = length df"
  by (simp add: degfr_cum_column_def)

lemma length_get_init_egfr [simp]: "length (get_init_egfr df) = length df"
  by (simp add: get_init_egfr_def)

lemma length_get_decline [simp]: "length (get_decline df) = length df"
  by (simp add: get_decline_def)

lemma shift_up_nth:
  "i < length xs \<Longrightarrow> shift_up xs ! i = (if Suc i < length xs then xs ! Suc i else None)"
  by (cases xs) (auto simp: shift_up_def nth_append nth_tl)

lemma shift_down_nth:
  "i < length xs \<Longrightarrow> shift_down xs ! i = (case i of 0 \<Rightarrow> None | Suc j \<Rightarrow> xs ! j)"
proof (cases i)
  case 0
  assume "i < length xs"
  then show ?thesis using 0 by (auto simp: shift_down_def)
next
  case (Suc j)
  assume "i < length xs"
  then have "j < length (butlast xs)" using Suc by simp
  then show ?thesis using Suc by (auto simp: shift_down_def nth_butlast)
qed

lemma group_diff_same:
  "Suc i < length df \<Longrightarrow> pid (df ! i) = pid (df ! Suc i)
   \<Longrightarrow> group_diff seen df ! Suc i = Some (age (df ! Suc i) - age (df ! i))"
proof (induction df arbitrary: seen i)
  case Nil
  then show ?case by simp
next
  case (Cons r rs)
  show ?case
  proof (cases i)
    case 0
    then show ?thesis using Cons.prems by (cases rs) simp_all
  next
    case (Suc j)
    then show ?thesis using Cons.prems Cons.IH[of j] by simp
  qed
qed

lemma group_diff_new:
  "j < length df \<Longrightarrow> pid (df ! j) \<notin> pid ` set (take j df)
   \<Longrightarrow> group_diff seen df ! j
       = (case seen (pid (df ! j)) of None \<Rightarrow> None | Some a \<Rightarrow> Some (age (df ! j) - a))"
proof (induction df arbitrary: seen j)
  case Nil
  then show ?case by simp
next
  case (Cons r rs)
  show ?case
  proof (cases j)
    case 0
    show ?thesis unfolding 0 by (simp split: option.split)
  next
    case (Suc k)
    then have "pid (rs ! k) \<noteq> pid r" "pid (rs ! k) \<notin> pid ` set (take k rs)"
      using Cons.prems by auto
    then show ?thesis using Suc Cons.prems Cons.IH[of k]
      by (simp split: option.split)
  qed
qed

lemma sorted_boundary_new:
  assumes "sorted (map pid df)" "Suc i < length df" "pid (df ! i) \<noteq> pid (df ! Suc i)"
  shows "pid (df ! Suc i) \<notin> pid ` set (take (Suc i) df)"
proof
  assume "pid (df ! Suc i) \<in> pid ` set (take (Suc i) df)"
  then obtain k where k: "k < Suc i" "pid (df ! k) = pid (df ! Suc i)"
    using assms(2) by (auto simp: in_set_conv_nth)
  have "map pid df ! k \<le> map pid df ! i" using assms(1,2) k(1)
    by (intro sorted_nth_mono) simp_all
  moreover have "map pid df ! i \<le> map pid df ! Suc i" using assms(1,2)
    by (intro sorted_nth_mono) simp_all
  ultimately show False using k assms(2,3) by simp
qed

lemma acc_after_append: "acc_after acc (xs @ ys) = acc_after (acc_after acc xs) ys"
proof (induction xs arbitrary: acc)
  case Nil
  then show ?case by simp
next
  case (Cons x xs)
  obtain p v where "x = (p, v)" by (cases x)
  then show ?case using Cons by (cases v) (simp_all add: fun_upd_def)
qed

lemma acc_after_notin: "p \<notin> fst ` set xs \<Longrightarrow> acc_after acc xs p = acc p"
proof (induction xs arbitrary: acc)
  case Nil
  then show ?case by simp
next
  case (Cons x xs)
  obtain q v where x: "x = (q, v)" by (cases x)
  then have "q \<noteq> p" "p \<notin> fst ` set xs" using Cons.prems by auto
  then show ?case using Cons.IH x by (cases v) simp_all
qed

lemma group_cumsum_nth:
  "i < length xs \<Longrightarrow> group_cumsum acc xs ! i
     = (case snd (xs ! i) of None \<Rightarrow> None
        | Some v \<Rightarrow> Some (acc_after acc (take i xs) (fst (xs ! i)) + v))"
proof (induction xs arbitrary: acc i)
  case Nil
  then show ?case by simp
next
  case (Cons x xs)
  obtain p v where x: "x = (p, v)" by (cases x)
  show ?case
  proof (cases i)
    case 0
    show ?thesis unfolding 0 x by (cases v) simp_all
  next
    case (Suc j)
    then have "j < length xs" using Cons.prems by simp
    from Cons.IH[OF this] show ?thesis unfolding Suc x
      by (cases v) (simp_all add: fun_upd_def split: option.split)
  qed
qed

lemma degfr_column_nth:
  "i < length df \<Longrightarrow> degfr_column df ! i
     = map_option round2 (opt2 (*) (shift_up (group_diff (\<lambda>p. None) df) ! i) (slope (df ! i)))"
  by (simp add: degfr_column_def)

lemma degfr_same:
  assumes "Suc i < length df" "pid (df ! i) = pid (df ! Suc i)" "slope (df ! i) = Some s"
  shows "degfr_column df ! i = Some (round2 ((age (df ! Suc i) - age (df ! i)) * s))"
proof -
  have "shift_up (group_diff (\<lambda>p. None) df) ! i = Some (age (df ! Suc i) - age (df ! i))"
    using assms(1,2) by (simp add: shift_up_nth group_diff_same)
  then show ?thesis using assms(1,3) by (simp add: degfr_column_nth opt2_def)
qed

lemma degfr_boundary:
  assumes "sorted (map pid df)" "Suc i < length df" "pid (df ! i) \<noteq> pid (df ! Suc i)"
  shows "degfr_column df ! i = None"
proof -
  have "pid (df ! Suc i) \<notin> pid ` set (take (Suc i) df)"
    using assms by (rule sorted_boundary_new)
  then have "group_diff (\<lambda>p. None) df ! Suc i = None"
    using assms(2) by (simp add: group_diff_new)
  then have "shift_up (group_diff (\<lambda>p. None) df) ! i = None"
    using assms(2) by (simp add: shift_up_nth)
  then show ?thesis using assms(2) by (simp add: degfr_column_nth opt2_def)
qed

lemma degfr_cum_zero: "0 < length df \<Longrightarrow> degfr_cum_column df ! 0 = 0"
  by (simp add: degfr_cum_column_def shift_down_nth fillna_def)

lemma degfr_cum_Suc:
  assumes "Suc i < length df"
  shows "degfr_cum_column df ! Suc i
     = (case degfr_column df ! i of None \<Rightarrow> 0
        | Some v \<Rightarrow> acc_after (\<lambda>p. 0) (take i (zip (map pid df) (degfr_column df)))
                      (pid (df ! i)) + v)"
proof -
  define xs where "xs = zip (map pid df) (degfr_column df)"
  have len: "length xs = length df" by (simp add: xs_def)
  have nth: "xs ! i = (pid (df ! i), degfr_column df ! i)"
    using assms by (simp add: xs_def)
  have cs: "group_cumsum (\<lambda>p. 0) xs ! i
     = (case degfr_column df ! i of None \<Rightarrow> None
        | Some v \<Rightarrow> Some (acc_after (\<lambda>p. 0) (take i xs) (pid (df ! i)) + v))"
    using group_cumsum_nth[of i xs "\<lambda>p. 0"] assms len
    by (simp add: nth split: option.split)
  have "degfr_cum_column df ! Suc i = fillna 0 (group_cumsum (\<lambda>p. 0) xs ! i)"
    using assms len by (simp add: degfr_cum_column_def shift_down_nth xs_def)
  then show ?thesis unfolding cs
    by (simp add: fillna_def xs_def split: option.split)
qed

lemma cum_invariant:
  assumes "sorted (map pid df)" "i < length df"
    "\<forall>k<i. pid (df ! k) = pid (df ! i) \<longrightarrow> slope (df ! k) \<noteq> None"
  shows "degfr_cum_column df ! i
     = acc_after (\<lambda>p. 0) (take i (zip (map pid df) (degfr_column df))) (pid (df ! i))"
proof (cases i)
  case 0
  then show ?thesis using assms(2) by (simp add: degfr_cum_zero)
next
  case (Suc j)
  define xs where "xs = zip (map pid df) (degfr_column df)"
  have j: "Suc j < length df" using assms(2) Suc by simp
  have len: "length xs = length df" by (simp add: xs_def)
  have nth: "xs ! j = (pid (df ! j), degfr_column df ! j)"
    using j by (simp add: xs_def)
  have tk: "take (Suc j) xs = take j xs @ [xs ! j]"
    using j len by (simp add: take_Suc_conv_app_nth)
  show ?thesis
  proof (cases "pid (df ! j) = pid (df ! Suc j)")
    case True
    obtain s where s: "slope (df ! j) = Some s" using assms(3) Suc True by auto
    have d: "degfr_column df ! j = Some (round2 ((age (df ! Suc j) - age (df ! j)) * s))"
      using j True s by (rule degfr_same)
    have "degfr_cum_column df ! Suc j
       = acc_after (\<lambda>p. 0) (take j xs) (pid (df ! j)) + round2 ((age (df ! Suc j) - age (df ! j)) * s)"
      using degfr_cum_Suc[OF j] d by (simp add: xs_def)
    moreover have "acc_after (\<lambda>p. 0) (take (Suc j) xs) (pid (df ! Suc j))
       = acc_after (\<lambda>p. 0) (take j xs) (pid (df ! j)) + round2 ((age (df ! Suc j) - age (df ! j)) * s)"
      unfolding tk acc_after_append nth d using True by simp
    ultimately show ?thesis unfolding Suc xs_def by simp
  next
    case False
    have d: "degfr_column df ! j = None"
      using assms(1) j False by (rule degfr_boundary)
    have "degfr_cum_column df ! Suc j = 0"
      using degfr_cum_Suc[OF j] d by simp
    moreover have "pid (df ! Suc j) \<notin> pid ` set (take (Suc j) df)"
      using assms(1) j False by (rule sorted_boundary_new)
    then have "pid (df ! Suc j) \<notin> fst ` set (take (Suc j) xs)"
      unfolding xs_def take_zip by (auto simp: take_map dest!: set_zip_leftD)
    then have "acc_after (\<lambda>p. 0) (take (Suc j) xs) (pid (df ! Suc j)) = 0"
      by (simp add: acc_after_notin)
    ultimately show ?thesis unfolding Suc xs_def by simp
  qed
qed

lemma cum_step_same:
  assumes "sorted (map pid df)" "Suc i < length df" "pid (df ! i) = pid (df ! Suc i)"
    "\<forall>k<i. pid (df ! k) = pid (df ! i) \<longrightarrow> slope (df ! k) \<noteq> None"
    "slope (df ! i) = Some s"
  shows "degfr_cum_column df ! Suc i
     = degfr_cum_column df ! i + round2 ((age (df ! Suc i) - age (df ! i)) * s)"
proof -
  have d: "degfr_column df ! i = Some (round2 ((age (df ! Suc i) - age (df ! i)) * s))"
    using assms(2,3,5) by (rule degfr_same)
  have "i < length df" using assms(2) by simp
  from cum_invariant[OF assms(1) this assms(4)] degfr_cum_Suc[OF assms(2)] d
  show ?thesis by simp
qed

lemma cum_step_new:
  assumes "sorted (map pid df)" "Suc i < length df" "pid (df ! i) \<noteq> pid (df ! Suc i)"
  shows "degfr_cum_column df ! Suc i = 0"
  using degfr_cum_Suc[OF assms(2)] degfr_boundary[OF assms] by simp

lemma cumulative_decline_same:
  assumes "pid (df ! i) = pid (df ! Suc i)"
  shows "cumulative_decline df (Suc i) = cumulative_decline df i + segment_decline df i"
  using assms by (simp add: cumulative_decline_def)

lemma cumulative_decline_new:
  assumes "sorted (map pid df)" "Suc i < length df" "pid (df ! i) \<noteq> pid (df ! Suc i)"
  shows "cumulative_decline df (Suc i) = 0"
proof -
  have new: "pid (df ! Suc i) \<notin> pid ` set (take (Suc i) df)"
    using assms by (rule sorted_boundary_new)
  have "\<forall>k\<in>set [0..<Suc i]. pid (df ! k) \<noteq> pid (df ! Suc i)"
  proof
    fix k assume "k \<in> set [0..<Suc i]"
    then have k: "k < Suc i" by (auto simp: less_Suc_eq)
    then have "df ! k \<in> set (take (Suc i) df)"
      using assms(2) by (auto simp: in_set_conv_nth intro!: exI[of _ k])
    then have "pid (df ! k) \<in> pid ` set (take (Suc i) df)" by (rule imageI)
    then show "pid (df ! k) \<noteq> pid (df ! Suc i)" using new by auto
  qed
  then have e: "map (\<lambda>k. if pid (df ! k) = pid (df ! Suc i) then segment_decline df k else 0) [0..<Suc i]
     = map (\<lambda>k. 0) [0..<Suc i]"
    by (intro map_cong refl) (simp del: upt_Suc set_upt)
  show ?thesis unfolding cumulative_decline_def e by (simp only: sum_list_0)
qed

lemma cum_sum:
  assumes "sorted (map pid df)"
  shows "i < length df
     \<Longrightarrow> \<forall>k<i. pid (df ! k) = pid (df ! i) \<longrightarrow> slope (df ! k) \<noteq> None
     \<Longrightarrow> degfr_cum_column df ! i = cumulative_decline df i"
proof (induction i)
  case 0
  then show ?case by (simp add: degfr_cum_zero cumulative_decline_def)
next
  case (Suc i)
  show ?case
  proof (cases "pid (df ! i) = pid (df ! Suc i)")
    case True
    have sl: "\<forall>k<i. pid (df ! k) = pid (df ! i) \<longrightarrow> slope (df ! k) \<noteq> None"
      using Suc.prems(2) True by simp
    have IH: "degfr_cum_column df ! i = cumulative_decline df i"
      using Suc.IH Suc.prems(1) sl by simp
    obtain s where s: "slope (df ! i) = Some s" using Suc.prems(2) True by auto
    from cum_step_same[OF assms Suc.prems(1) True sl s] IH
    show ?thesis using cumulative_decline_same[OF True] s
      by (simp add: segment_decline_def)
  next
    case False
    show ?thesis
      using cum_step_new[OF assms Suc.prems(1) False]
        cumulative_decline_new[OF assms Suc.prems(1) False] by simp
  qed
qed

lemma get_decline_nth:
  "i < length df \<Longrightarrow> get_decline df ! i
     = (df ! i)\<lparr>egfr := map_option (\<lambda>e. e - degfr_cum_column df ! i) (get_init_egfr df ! i)\<rparr>"
  by (simp add: get_decline_def)

lemma get_init_egfr_pid:
  "i < length df \<Longrightarrow> j < length df \<Longrightarrow> pid (df ! i) = pid (df ! j)
   \<Longrightarrow> get_init_egfr df ! i = get_init_egfr df ! j"
  by (simp add: get_init_egfr_def)

lemma length_ffill_from [simp]: "length (ffill_from c xs) = length xs"
proof (induction xs arbitrary: c)
  case Nil
  then show ?case by simp
next
  case (Cons x xs)
  then show ?case by (cases x) simp_all
qed

lemma ffill_from_nth:
  "k < length xs \<Longrightarrow> xs ! k = Some v \<Longrightarrow> ffill_from c xs ! k = Some v"
proof (induction xs arbitrary: c k)
  case Nil
  then show ?case by simp
next
  case (Cons x xs)
  then show ?case by (cases x; cases k) simp_all
qed

lemma get_init_egfr_first:
  assumes "i < length df"
    "first_valid (map egfr (filter (\<lambda>r. pid r = pid (df ! i)) df)) = Some e"
  shows "get_init_egfr df ! i = Some e"
proof -
  define ps where "ps = sort (remdups (map pid df))"
  define f where "f = (\<lambda>p. first_valid (map egfr (filter (\<lambda>r. pid r = p) df)))"
  define ys where "ys = ffill (map f ps)"
  have dist: "distinct ps" by (simp add: ps_def)
  have "pid (df ! i) \<in> set ps" using assms(1) by (simp add: ps_def)
  then obtain k where k: "k < length ps" "ps ! k = pid (df ! i)"
    by (auto simp: in_set_conv_nth)
  have len: "length ps = length ys" by (simp add: ys_def ffill_def)
  have "map f ps ! k = Some e" using k assms(2) by (simp add: f_def)
  then have "ys ! k = Some e" using k(1) by (simp add: ys_def ffill_def ffill_from_nth)
  moreover have "map_of (zip ps ys) (ps ! k) = Some (ys ! k)"
    using len dist k(1) by (intro map_of_zip_nth) simp_all
  ultimately have "map_of (zip ps ys) (pid (df ! i)) = Some (Some e)" using k(2) by simp
  moreover have "init_egfr_table df = zip ps ys"
    by (simp add: init_egfr_table_def ps_def ys_def f_def Let_def)
  ultimately show ?thesis using assms(1) by (simp add: get_init_egfr_def)
qed

text \<open>
  Claim C2.  On a table kept in the order of its index (the rows of an individual
  together), let rows \<open>i\<close> and \<open>i + 1\<close> belong to the same individual, whose rows up
  to \<open>i\<close> have a slope and for whom an eGFR is known.
  Then \<open>get_decline\<close> gives both rows an eGFR; the later one is the earlier one minus
  the product of the earlier row's slope and the age gap rounded to 2 decimals, so it is
  within 0.005 of the exact linear value; and the earlier one is the individual's
  initial eGFR minus the sum of the rounded products over the individual's preceding
  segments.
\<close>

theorem get_decline_linear:
  assumes "sorted (map pid df)" "Suc i < length df" "pid (df ! i) = pid (df ! Suc i)"
    "\<forall>k\<le>i. pid (df ! k) = pid (df ! i) \<longrightarrow> slope (df ! k) \<noteq> None"
    "first_valid (map egfr (filter (\<lambda>r. pid r = pid (df ! i)) df)) = Some e_init"
  shows "\<exists>e0 e1 s. slope (df ! i) = Some s
           \<and> egfr (get_decline df ! i) = Some e0
           \<and> egfr (get_decline df ! Suc i) = Some e1
           \<and> e1 = e0 - round2 (s * (age (df ! Suc i) - age (df ! i)))
           \<and> \<bar>e1 - (e0 - s * (age (df ! Suc i) - age (df ! i)))\<bar> \<le> 1 / 200
           \<and> e0 = e_init - cumulative_decline df i"
proof -
  obtain s where s: "slope (df ! i) = Some s" using assms(4) by auto
  have i: "i < length df" using assms(2) by simp
  have sl: "\<forall>k<i. pid (df ! k) = pid (df ! i) \<longrightarrow> slope (df ! k) \<noteq> None"
    using assms(4) by simp
  define g where "g = s * (age (df ! Suc i) - age (df ! i))"
  have g: "(age (df ! Suc i) - age (df ! i)) * s = g" by (simp add: g_def)
  have init_i: "get_init_egfr df ! i = Some e_init"
    using i assms(5) by (rule get_init_egfr_first)
  have init_Suc: "get_init_egfr df ! Suc i = Some e_init"
    using get_init_egfr_pid[OF assms(2) i] assms(3) init_i by simp
  have c0: "degfr_cum_column df ! i = cumulative_decline df i"
    using cum_sum[OF assms(1) i sl] .
  have c1: "degfr_cum_column df ! Suc i = degfr_cum_column df ! i + round2 g"
    using cum_step_same[OF assms(1,2,3) sl s] g by simp
  have e0: "egfr (get_decline df ! i) = Some (e_init - cumulative_decline df i)"
    using i init_i c0 by (simp add: get_decline_nth)
  have e1: "egfr (get_decline df ! Suc i)
      = Some (e_init - cumulative_decline df i - round2 g)"
    using assms(2) init_Suc c0 c1 by (simp add: get_decline_nth)
  have "\<bar>round2 g - g\<bar> \<le> 1 / 200" by (rule round2_close)
  then have "\<bar>(e_init - cumulative_decline df i - round2 g)
      - (e_init - cumulative_decline df i - g)\<bar> \<le> 1 / 200" by (simp add: abs_minus_commute)
  then show ?thesis using s e0 e1 unfolding g_def by simp
qed

lemma round2_example:
  "round2 (3333 / 1000 * (6105 / 100 - 57)) = 27 / 2"
  "round2 (1333 / 1000 * (755 / 10 - 50)) = 3399 / 100"
  by (simp_all add: round2_def rint_def Let_def)

lemma decline_example_rows:
  "sorted (map pid decline_example)"
  "length decline_example = 5"
  "map pid decline_example = [1, 1, 1, 2, 2]"
  "map age decline_example = [50, 57, 61.05, 50, 75.5]"
  "map slope decline_example = [Some 1.5, Some 3.333, None, Some 1.333, None]"
  by (simp_all add: decline_example_def blank_row_def)

theorem get_decline_linear_witness:
  "egfr (get_decline decline_example ! 1) = Some 69.5
   \<and> egfr (get_decline decline_example ! 2) = Some 56
   \<and> egfr (get_decline decline_example ! 3) = Some 70
   \<and> egfr (get_decline decline_example ! 4) = Some 36.01"
proof -
  note rows = decline_example_rows
  have p: "pid (decline_example ! 0) = 1" "pid (decline_example ! 1) = 1"
    "pid (decline_example ! 2) = 1" "pid (decline_example ! 3) = 2"
    "pid (decline_example ! 4) = 2"
    by (simp_all add: decline_example_def blank_row_def)
  have a: "age (decline_example ! 0) = 50" "age (decline_example ! 1) = 57"
    "age (decline_example ! 2) = 61.05" "age (decline_example ! 3) = 50"
    "age (decline_example ! 4) = 75.5"
    by (simp_all add: decline_example_def blank_row_def)
  have sl: "slope (decline_example ! 0) = Some 1.5" "slope (decline_example ! 1) = Some 3.333"
    "slope (decline_example ! 3) = Some 1.333"
    by (simp_all add: decline_example_def blank_row_def)
  have n: "Suc 1 = 2" "Suc 3 = 4" by simp_all
  have s1: "\<forall>k\<le>1. pid (decline_example ! k) = pid (decline_example ! 1)
             \<longrightarrow> slope (decline_example ! k) \<noteq> None"
  proof (intro allI, rule impI)
    fix k :: nat assume "k \<le> 1"
    then have "k = 0 \<or> k = 1" by auto
    then show "pid (decline_example ! k) = pid (decline_example ! 1)
             \<longrightarrow> slope (decline_example ! k) \<noteq> None" using sl by auto
  qed
  have s3: "\<forall>k\<le>3. pid (decline_example ! k) = pid (decline_example ! 3)
             \<longrightarrow> slope (decline_example ! k) \<noteq> None"
  proof (intro allI, rule impI)
    fix k :: nat assume "k \<le> 3"
    then have "k = 0 \<or> k = 1 \<or> k = 2 \<or> k = 3" by auto
    then show "pid (decline_example ! k) = pid (decline_example ! 3)
             \<longrightarrow> slope (decline_example ! k) \<noteq> None" using sl p by auto
  qed
  have f1: "first_valid (map egfr (filter (\<lambda>r. pid r = pid (decline_example ! 1)) decline_example))
             = Some 80"
    by (simp add: decline_example_def blank_row_def first_valid_def)
  have f3: "first_valid (map egfr (filter (\<lambda>r. pid r = pid (decline_example ! 3)) decline_example))
             = Some 70"
    by (simp add: decline_example_def blank_row_def first_valid_def)
  have c1: "cumulative_decline decline_example 1 = 21 / 2"
    by (simp add: cumulative_decline_def segment_decline_def decline_example_def
        blank_row_def round2_def rint_def Let_def)
  have c3: "cumulative_decline decline_example 3 = 0"
    by (simp add: cumulative_decline_def decline_example_def blank_row_def
        numeral_3_eq_3)
  have l1: "Suc 1 < length decline_example" and l3: "Suc 3 < length decline_example"
    by (simp_all add: rows(2))
  have q1: "pid (decline_example ! 1) = pid (decline_example ! Suc 1)"
    and q3: "pid (decline_example ! 3) = pid (decline_example ! Suc 3)"
    unfolding n using p by simp_all
  from get_decline_linear[OF rows(1) l1 q1 s1 f1] obtain e0 e1 s where
    h: "slope (decline_example ! 1) = Some s"
       "egfr (get_decline decline_example ! 1) = Some e0"
       "egfr (get_decline decline_example ! Suc 1) = Some e1"
       "e1 = e0 - round2 (s * (age (decline_example ! Suc 1) - age (decline_example ! 1)))"
       "e0 = 80 - cumulative_decline decline_example 1"
    by blast
  from get_decline_linear[OF rows(1) l3 q3 s3 f3] obtain d0 d1 t where
    k: "slope (decline_example ! 3) = Some t"
       "egfr (get_decline decline_example ! 3) = Some d0"
       "egfr (get_decline decline_example ! Suc 3) = Some d1"
       "d1 = d0 - round2 (t * (age (decline_example ! Suc 3) - age (decline_example ! 3)))"
       "d0 = 70 - cumulative_decline decline_example 3"
    by blast
  have s: "s = 3.333" using h(1) sl by simp
  have t: "t = 1.333" using k(1) sl by simp
  have e0: "e0 = 69.5" using h(5) c1 by simp
  have d0: "d0 = 70" using k(5) c3 by simp
  have "round2 (s * (age (decline_example ! Suc 1) - age (decline_example ! 1))) = 27 / 2"
    unfolding s n a using round2_example(1) by simp
  then have e1: "e1 = 56" using h(4) e0 by simp
  have "round2 (t * (age (decline_example ! Suc 3) - age (decline_example ! 3))) = 3399 / 100"
    unfolding t n a using round2_example(2) by simp
  then have d1: "d1 = 36.01" using k(4) d0 by simp
  show ?thesis using h(2,3) k(2,3) e0 e1 d0 d1 unfolding n by simp
qed

end
